theory Spec2Isabelle
  imports Main "HOL-Library.Sublist"
begin

section \<open>The action table and executor of tools/idf.py\<close>

subsection \<open>Data model\<close>

text \<open>
  The six handler functions that occur as first components in the table \<open>ACTIONS\<close>.
  A value of this type is the function object itself; what calling it does is given
  by \<open>call\<close> below.
\<close>

datatype handler = build_target | clean | fullclean | flash | erase_flash | monitor

text \<open>
  The first component of an \<open>ACTIONS\<close> entry is either a function object or a string
  (the name of another action).
\<close>

datatype operation = Fn handler | Str string

type_synonym entry = "operation \<times> string list \<times> string list"

type_synonym registry = "string \<rightharpoonup> entry"

text \<open>
  Exceptions. \<open>FatalError\<close> is the class defined in the script; \<open>KeyError\<close> is raised
  by a dictionary subscript with an absent key, \<open>TypeError\<close> by calling a string,
  \<open>RecursionError\<close> when the nesting of \<open>execute_action\<close> exceeds the interpreter's
  recursion limit, and \<open>IndexError\<close> by \<open>pop\<close> on an empty list. \<open>OtherError\<close> stands for any other exception of a handler.
\<close>

datatype exn = FatalError string | KeyError string | TypeError | RecursionError
  | IndexError | OtherError string

text \<open>
  One handler invocation \<open>function(action, args)\<close>: the function, the action name it
  was called with, and the exception it raised, if any.
\<close>

datatype event = Call (fn: handler) (arg: string) (res: "exn option")

text \<open>
  The state of a run: the set \<open>completed_actions\<close>, the list \<open>args.actions\<close>, the log
  of handler invocations in the order they happened, and the world outside the
  process (file system, build directory, attached device) on which handlers act.
\<close>

record 'w state =
  completed_actions :: "string set"
  actions :: "string list"
  trace :: "event list"
  world :: 'w

datatype 's outcome = Done 's | Raised exn 's

text \<open>
  The effect of the body of a handler on the world, a parameter of the model: it
  returns the exception raised (if any) and the world it leaves behind.
\<close>

type_synonym 'w ext = "handler \<Rightarrow> string \<Rightarrow> 'w \<Rightarrow> exn option \<times> 'w"

subsection \<open>The table \<open>ACTIONS\<close>\<close>

definition ACTIONS_list :: "(string \<times> entry) list" where
  "ACTIONS_list =
    [ (''all'',                   (Fn build_target, [], [''menuconfig'', ''clean'', ''fullclean''])),
      (''build'',                 (Str ''all'',     [], [])),
      (''clean'',                 (Fn clean,        [], [''fullclean''])),
      (''fullclean'',             (Fn fullclean,    [], [])),
      (''menuconfig'',            (Fn build_target, [], [])),
      (''size'',                  (Fn build_target, [], [''app''])),
      (''size-components'',       (Fn build_target, [], [''app''])),
      (''size-files'',            (Fn build_target, [], [''app''])),
      (''bootloader'',            (Fn build_target, [], [])),
      (''bootloader-clean'',      (Fn build_target, [], [])),
      (''bootloader-flash'',      (Fn flash,        [''bootloader''], [])),
      (''app'',                   (Fn build_target, [], [])),
      (''app-flash'',             (Fn flash,        [], [''app''])),
      (''partition_table'',       (Fn build_target, [], [])),
      (''partition_table-flash'', (Fn flash,        [''partition_table''], [])),
      (''flash'',                 (Fn flash,        [''all''], [])),
      (''erase_flash'',           (Fn erase_flash,  [], [])),
      (''monitor'',               (Fn monitor,      [],
          [''flash'', ''partition_table-flash'', ''bootloader-flash'', ''app-flash''])) ]"

definition ACTIONS :: registry where
  "ACTIONS = map_of ACTIONS_list"

subsection \<open>Handlers\<close>

text \<open>The dictionary literal inside \<open>flash\<close>: action name to flasher argument file.\<close>

definition flasher_args_path :: "string \<rightharpoonup> string" where
  "flasher_args_path = map_of
    [ (''bootloader-flash'',      ''flash_bootloader_args''),
      (''partition_table-flash'', ''flash_partition_table_args''),
      (''app-flash'',             ''flash_app_args''),
      (''flash'',                 ''flash_project_args'') ]"

text \<open>
  Calling a handler. \<open>flash\<close> first subscripts its dictionary with the action name,
  which raises \<open>KeyError\<close> for an absent key before anything touches the world; the
  rest of its body, and the whole body of every other handler, is the external
  effect \<open>ext\<close>.
\<close>

definition call :: "'w ext \<Rightarrow> handler \<Rightarrow> string \<Rightarrow> 'w \<Rightarrow> exn option \<times> 'w" where
  "call ext f action w =
     (if f = flash then
        (case flasher_args_path action of
           None \<Rightarrow> (Some (KeyError action), w)
         | Some p \<Rightarrow> ext f action w)
      else ext f action w)"

subsection \<open>The executor\<close>

text \<open>Sequencing: an exception ends the computation with the state reached.\<close>

fun and_then :: "'s outcome \<Rightarrow> ('s \<Rightarrow> 's outcome) \<Rightarrow> 's outcome" where
  "and_then (Done s) k = k s"
| "and_then (Raised e s) k = Raised e s"

text \<open>A \<open>for\<close> loop over a list whose body may raise.\<close>

fun for_each :: "('a \<Rightarrow> 's \<Rightarrow> 's outcome) \<Rightarrow> 'a list \<Rightarrow> 's \<Rightarrow> 's outcome" where
  "for_each body [] s = Done s"
| "for_each body (x # xs) s = and_then (body x s) (for_each body xs)"

text \<open>
  \<open>function(action, args)\<close> for a function object: the invocation is logged, with the
  exception it raised if it raised one.
\<close>

definition invoke :: "'w ext \<Rightarrow> handler \<Rightarrow> string \<Rightarrow> 'w state \<Rightarrow> 'w state outcome" where
  "invoke ext f action s =
     (case call ext f action (world s) of
        (None, w') \<Rightarrow> Done (s\<lparr>trace := trace s @ [Call f action None], world := w'\<rparr>)
      | (Some e, w') \<Rightarrow>
          Raised e (s\<lparr>trace := trace s @ [Call f action (Some e)], world := w'\<rparr>))"

text \<open>
  The closure \<open>execute_action\<close> inside \<open>main\<close>. The first numeric argument is the
  number of nested \<open>execute_action\<close> frames the interpreter still allows; a call made
  when none is left raises \<open>RecursionError\<close>. Nothing in the function catches an
  exception.
\<close>

primrec execute_action ::
  "registry \<Rightarrow> 'w ext \<Rightarrow> nat \<Rightarrow> string \<Rightarrow> string list \<Rightarrow> 'w state \<Rightarrow> 'w state outcome" where
  "execute_action R ext 0 action remaining_actions st = Raised RecursionError st"
| "execute_action R ext (Suc n) action remaining_actions st =
     (case R action of
        None \<Rightarrow> Raised (KeyError action) st
      | Some (function, dependencies, order_dependencies) \<Rightarrow>
          and_then
            (for_each
               (\<lambda>dep s. if dep \<notin> completed_actions s
                        then execute_action R ext n dep remaining_actions s
                        else Done s)
               dependencies st)
            (\<lambda>s1.
          and_then
            (for_each
               (\<lambda>dep s. if dep \<in> set remaining_actions \<and> dep \<notin> completed_actions s
                        then execute_action R ext n dep remaining_actions s
                        else Done s)
               order_dependencies s1)
            (\<lambda>s2.
          and_then
            (if action \<in> completed_actions s2 then Done s2
             else (case function of
                     Str target \<Rightarrow>
                       if R target \<noteq> None
                       then execute_action R ext n target remaining_actions s2
                       else Raised TypeError s2
                   | Fn f \<Rightarrow> invoke ext f action s2))
            (\<lambda>s3. Done (s3\<lparr>completed_actions := insert action (completed_actions s3)\<rparr>)))))"

subsection \<open>What \<open>execute_action\<close> leaves alone\<close>

fun state_of :: "'s outcome \<Rightarrow> 's" where
  "state_of (Done s) = s"
| "state_of (Raised e s) = s"

text \<open>
  \<open>extends st s\<close>: \<open>s\<close> has the same \<open>args.actions\<close> as \<open>st\<close>, at least its completed
  actions, and a log that continues the log of \<open>st\<close>.
\<close>

definition extends :: "'w state \<Rightarrow> 'w state \<Rightarrow> bool" where
  "extends st s \<longleftrightarrow> actions s = actions st \<and> completed_actions st \<subseteq> completed_actions s
     \<and> prefix (trace st) (trace s)"

lemma extends_refl [simp]: "extends s s"
  by (simp add: extends_def)

lemma extends_trans: "extends a b \<Longrightarrow> extends b c \<Longrightarrow> extends a c"
  by (auto simp: extends_def)

lemma and_then_extends:
  assumes "extends st (state_of out)"
    and "\<And>s. out = Done s \<Longrightarrow> extends s (state_of (k s))"
  shows "extends st (state_of (and_then out k))"
  using assms by (cases out) (auto intro: extends_trans)

lemma for_each_extends:
  assumes "\<And>x s. x \<in> set xs \<Longrightarrow> extends s (state_of (body x s))"
  shows "extends st (state_of (for_each body xs st))"
  using assms
proof (induction xs arbitrary: st)
  case Nil
  then show ?case by simp
next
  case (Cons x xs)
  have "extends st (state_of (and_then (body x st) (for_each body xs)))"
  proof (rule and_then_extends)
    show "extends st (state_of (body x st))" using Cons.prems by simp
  next
    fix s show "extends s (state_of (for_each body xs s))"
      by (rule Cons.IH) (simp add: Cons.prems)
  qed
  then show ?case by simp
qed

lemma invoke_extends: "extends s (state_of (invoke ext f a s))"
  by (auto simp: invoke_def extends_def split: prod.splits option.splits)

lemma execute_action_extends:
  "extends st (state_of (execute_action R ext n a rem st))"
proof (induction n arbitrary: a st)
  case 0
  then show ?case by simp
next
  case (Suc n)
  show ?case
  proof (cases "R a")
    case None
    then show ?thesis by simp
  next
    case (Some ent)
    obtain f hs os where ent: "ent = (f, hs, os)" by (cases ent)
    show ?thesis
      unfolding execute_action.simps Some ent option.case prod.case
      apply (rule and_then_extends)
       apply (rule for_each_extends)
       apply (simp add: Suc)
      apply (rule and_then_extends)
       apply (rule for_each_extends)
       apply (simp add: Suc)
      apply (rule and_then_extends)
       apply (simp add: Suc invoke_extends split: operation.splits)
      apply (auto simp add: extends_def)
      done
  qed
qed

lemma execute_action_actions:
  "execute_action R ext n a rem st = Done s \<Longrightarrow> actions s = actions st"
  using execute_action_extends [of st R ext n a rem] by (simp add: extends_def)

subsection \<open>The main loop and the script\<close>

lemma and_then_cong [fundef_cong]:
  "out = out' \<Longrightarrow> (\<And>s. out' = Done s \<Longrightarrow> k s = k' s) \<Longrightarrow> and_then out k = and_then out' k'"
  by (cases out') auto

text \<open>
  The \<open>while\<close> loop at the end of \<open>main\<close>: the first name of \<open>args.actions\<close> is
  executed with the rest of the list as the remaining actions, then popped.
\<close>

function run_loop :: "registry \<Rightarrow> 'w ext \<Rightarrow> nat \<Rightarrow> 'w state \<Rightarrow> 'w state outcome" where
  "run_loop R ext n st =
     (case actions st of
        [] \<Rightarrow> Done st
      | a # rest \<Rightarrow>
          and_then (execute_action R ext n a rest st)
            (\<lambda>s. case actions s of
                   [] \<Rightarrow> Raised IndexError s
                 | b # rest' \<Rightarrow> run_loop R ext n (s\<lparr>actions := rest'\<rparr>)))"
  by pat_completeness auto
termination
  by (relation "measure (\<lambda>(R, ext, n, st). length (actions st))")
    (auto dest: execute_action_actions)

declare run_loop.simps [simp del]

text \<open>
  The part of \<open>main\<close> from \<open>completed_actions = set()\<close> on, for the parsed positional
  arguments \<open>acts\<close>.
\<close>

definition init :: "string list \<Rightarrow> 'w \<Rightarrow> 'w state" where
  "init acts w = \<lparr>completed_actions = {}, actions = acts, trace = [], world = w\<rparr>"

definition run :: "registry \<Rightarrow> 'w ext \<Rightarrow> nat \<Rightarrow> string list \<Rightarrow> 'w \<Rightarrow> 'w state outcome" where
  "run R ext n acts w = run_loop R ext n (init acts w)"

text \<open>
  \<open>main\<close>: argument parsing, \<open>check_environment\<close> and the checks of the build
  directory are the external step \<open>startup\<close>, which may raise; then the loop runs.
\<close>

definition main ::
  "registry \<Rightarrow> 'w ext \<Rightarrow> ('w \<Rightarrow> exn option \<times> 'w) \<Rightarrow> nat \<Rightarrow> string list \<Rightarrow> 'w
     \<Rightarrow> 'w state outcome" where
  "main R ext startup n acts w =
     (case startup w of
        (Some e, w') \<Rightarrow> Raised e (init acts w')
      | (None, w') \<Rightarrow> run R ext n acts w')"

text \<open>
  The block under \<open>if __name__ == "__main__"\<close>: a \<open>FatalError\<close> is printed and the
  process exits with status 2; any other exception is uncaught, and the interpreter
  exits with status 1 after its traceback; otherwise the status is 0. The result is
  the exit status and the message printed by the \<open>except\<close> clause.
\<close>

definition script ::
  "registry \<Rightarrow> 'w ext \<Rightarrow> ('w \<Rightarrow> exn option \<times> 'w) \<Rightarrow> nat \<Rightarrow> string list \<Rightarrow> 'w
     \<Rightarrow> nat \<times> string option" where
  "script R ext startup n acts w =
     (case main R ext startup n acts w of
        Done s \<Rightarrow> (0, None)
      | Raised (FatalError msg) s \<Rightarrow> (2, Some msg)
      | Raised e s \<Rightarrow> (1, None))"

text \<open>Two concrete worlds for running the model: every handler succeeds, or the
  handler called for one given action name raises \<open>FatalError\<close>.\<close>

definition succeed :: "unit ext" where
  "succeed f a w = (None, w)"

definition fail_on :: "string \<Rightarrow> unit ext" where
  "fail_on x f a w = (if a = x then (Some (FatalError ''tool failed''), w) else (None, w))"

definition no_startup_error :: "unit \<Rightarrow> exn option \<times> unit" where
  "no_startup_error w = (None, w)"

section \<open>Properties\<close>

subsection \<open>Unfolding the loop\<close>

lemma run_loop_Nil: "actions st = [] \<Longrightarrow> run_loop R ext n st = Done st"
  by (simp add: run_loop.simps)

lemma run_loop_Cons:
  assumes a: "actions st = a # rest"
  shows "run_loop R ext n st =
     and_then (execute_action R ext n a rest st) (\<lambda>s. run_loop R ext n (s\<lparr>actions := rest\<rparr>))"
proof -
  have "and_then (execute_action R ext n a rest st)
          (\<lambda>s. case actions s of [] \<Rightarrow> Raised IndexError s
                | b # rest' \<Rightarrow> run_loop R ext n (s\<lparr>actions := rest'\<rparr>))
        = and_then (execute_action R ext n a rest st) (\<lambda>s. run_loop R ext n (s\<lparr>actions := rest\<rparr>))"
    by (rule and_then_cong) (auto dest: execute_action_actions simp: a)
  then show ?thesis using a by (subst run_loop.simps) simp
qed

subsection \<open>Entries of the shipped table\<close>

lemma ACTIONS_clean: "ACTIONS ''clean'' = Some (Fn clean, [], [''fullclean''])"
  by (simp add: ACTIONS_def ACTIONS_list_def)

lemma ACTIONS_flash: "ACTIONS ''flash'' = Some (Fn flash, [''all''], [])"
  by (simp add: ACTIONS_def ACTIONS_list_def)

lemma ACTIONS_all:
  "ACTIONS ''all'' = Some (Fn build_target, [], [''menuconfig'', ''clean'', ''fullclean''])"
  by (simp add: ACTIONS_def ACTIONS_list_def)

lemma flasher_args_path_flash: "flasher_args_path ''flash'' = Some ''flash_project_args''"
  by (simp add: flasher_args_path_def)

subsection \<open>Postconditions of computations that may raise\<close>

fun post :: "('s \<Rightarrow> bool) \<Rightarrow> (exn \<Rightarrow> 's \<Rightarrow> bool) \<Rightarrow> 's outcome \<Rightarrow> bool" where
  "post P Q (Done s) = P s"
| "post P Q (Raised e s) = Q e s"

lemma and_then_post:
  assumes "post P Q out" and "\<And>s. out = Done s \<Longrightarrow> P s \<Longrightarrow> post P' Q (k s)"
  shows "post P' Q (and_then out k)"
  using assms by (cases out) auto

lemma for_each_post:
  assumes "P st" and "\<And>x s. x \<in> set xs \<Longrightarrow> P s \<Longrightarrow> post P Q (body x s)"
  shows "post P Q (for_each body xs st)"
  using assms
proof (induction xs arbitrary: st)
  case Nil
  then show ?case by simp
next
  case (Cons x xs)
  have "post P Q (and_then (body x st) (for_each body xs))"
  proof (rule and_then_post)
    show "post P Q (body x st)" using Cons.prems by simp
  next
    fix s assume "P s"
    then show "post P Q (for_each body xs s)"
      by (rule Cons.IH) (simp add: Cons.prems)
  qed
  then show ?case by simp
qed

lemma and_then_Done:
  "and_then out k = Done s \<longleftrightarrow> (\<exists>s1. out = Done s1 \<and> k s1 = Done s)"
  by (cases out) auto

lemma execute_action_grows:
  "execute_action R ext n a rem st = Done s \<Longrightarrow> completed_actions st \<subseteq> completed_actions s"
  using execute_action_extends [of st R ext n a rem] by (simp add: extends_def)

lemma execute_action_completes:
  "execute_action R ext n a rem st = Done s \<Longrightarrow> a \<in> completed_actions s"
  by (cases n) (auto simp: and_then_Done split: option.splits)

text \<open>After a dependency loop that finished, every name whose guard held is completed.\<close>

lemma for_each_completed:
  assumes "for_each (\<lambda>dep s. if G dep \<and> dep \<notin> completed_actions s
                             then execute_action R ext n dep rem s else Done s) xs st = Done s'"
  shows "completed_actions st \<subseteq> completed_actions s'
         \<and> (\<forall>x\<in>set xs. G x \<longrightarrow> x \<in> completed_actions s')"
  using assms
proof (induction xs arbitrary: st)
  case Nil
  then show ?case by simp
next
  case (Cons x xs)
  from Cons.prems obtain s1 where
    s1: "(if G x \<and> x \<notin> completed_actions st then execute_action R ext n x rem st else Done st) = Done s1"
    and rest: "for_each (\<lambda>dep s. if G dep \<and> dep \<notin> completed_actions s
                             then execute_action R ext n dep rem s else Done s) xs s1 = Done s'"
    by (auto simp: and_then_Done)
  from s1 have a: "completed_actions st \<subseteq> completed_actions s1"
    and b: "G x \<longrightarrow> x \<in> completed_actions s1"
    by (auto split: if_splits dest: execute_action_grows execute_action_completes)
  from Cons.IH [OF rest] a b show ?case by auto
qed

subsection \<open>A proof rule for \<open>execute_action\<close>\<close>

text \<open>
  \<open>closed_under R rem S\<close>: from a name in \<open>S\<close>, the hard dependencies, the order-only
  dependencies that occur in \<open>rem\<close>, and the alias target are in \<open>S\<close> again. These are
  the names \<open>execute_action\<close> can call itself with when the remaining actions are \<open>rem\<close>.
\<close>

definition closed_under :: "registry \<Rightarrow> string list \<Rightarrow> string set \<Rightarrow> bool" where
  "closed_under R rem S \<longleftrightarrow>
     (\<forall>x\<in>S. case R x of
        None \<Rightarrow> True
      | Some (func, hs, os) \<Rightarrow>
          set hs \<subseteq> S \<and> (\<forall>d\<in>set os. d \<in> set rem \<longrightarrow> d \<in> S)
          \<and> (case func of Str b \<Rightarrow> b \<in> S | Fn f \<Rightarrow> True))"

lemma closed_under_UNIV [simp]: "closed_under R rem UNIV"
  unfolding closed_under_def by (simp split: option.split operation.split)

lemma closed_underD:
  assumes "closed_under R rem S" "x \<in> S" "R x = Some (func, hs, os)"
  shows "set hs \<subseteq> S" "\<And>d. d \<in> set os \<Longrightarrow> d \<in> set rem \<Longrightarrow> d \<in> S"
    "\<And>b. func = Str b \<Longrightarrow> b \<in> S"
proof -
  from assms(1,2) have "case R x of None \<Rightarrow> True
      | Some (func, hs, os) \<Rightarrow>
          set hs \<subseteq> S \<and> (\<forall>d\<in>set os. d \<in> set rem \<longrightarrow> d \<in> S)
          \<and> (case func of Str b \<Rightarrow> b \<in> S | Fn f \<Rightarrow> True)"
    unfolding closed_under_def by (rule bspec)
  with assms(3) have *: "set hs \<subseteq> S" "\<forall>d\<in>set os. d \<in> set rem \<longrightarrow> d \<in> S"
    "case func of Str b \<Rightarrow> b \<in> S | Fn f \<Rightarrow> True"
    by simp_all
  show "set hs \<subseteq> S" by (rule *(1))
  show "\<And>d. d \<in> set os \<Longrightarrow> d \<in> set rem \<Longrightarrow> d \<in> S" using *(2) by blast
  show "\<And>b. func = Str b \<Longrightarrow> b \<in> S" using *(3) by simp
qed

lemma completed_absorb:
  "a \<in> completed_actions s \<Longrightarrow> s\<lparr>completed_actions := insert a (completed_actions s)\<rparr> = s"
  by (simp add: insert_absorb)

lemma execute_action_rule:
  assumes closed: "closed_under R rem S"
    and invoke_step: "\<And>f a hs os s. a \<in> S \<Longrightarrow> P s \<Longrightarrow> R a = Some (Fn f, hs, os) \<Longrightarrow>
        a \<notin> completed_actions s \<Longrightarrow> set hs \<subseteq> completed_actions s \<Longrightarrow>
        (\<forall>d\<in>set os. d \<in> set rem \<longrightarrow> d \<in> completed_actions s) \<Longrightarrow>
        post (\<lambda>s'. P (s'\<lparr>completed_actions := insert a (completed_actions s')\<rparr>)) Q
          (invoke ext f a s)"
    and alias_step: "\<And>a b hs os s. a \<in> S \<Longrightarrow> P s \<Longrightarrow> R a = Some (Str b, hs, os) \<Longrightarrow>
        R b \<noteq> None \<Longrightarrow> b \<in> completed_actions s \<Longrightarrow> set hs \<subseteq> completed_actions s \<Longrightarrow>
        (\<forall>d\<in>set os. d \<in> set rem \<longrightarrow> d \<in> completed_actions s) \<Longrightarrow>
        P (s\<lparr>completed_actions := insert a (completed_actions s)\<rparr>)"
    and error_step: "\<And>e s. P s \<Longrightarrow> Q e s"
  shows "a \<in> S \<Longrightarrow> P st \<Longrightarrow> post P Q (execute_action R ext n a rem st)"
proof (induction n arbitrary: a st)
  case 0
  then show ?case by (simp add: error_step)
next
  case (Suc n)
  show ?case
  proof (cases "R a")
    case None
    then show ?thesis using Suc.prems by (simp add: error_step)
  next
    case (Some ent)
    obtain func hs os where ent: "ent = (func, hs, os)" by (cases ent)
    note Ra = Some [unfolded ent]
    note aS = Suc.prems(1) and Pst = Suc.prems(2)
    note cl = closed_underD [OF closed aS Ra]
    let ?hard = "for_each (\<lambda>dep s. if dep \<notin> completed_actions s
                      then execute_action R ext n dep rem s else Done s) hs st"
    let ?order = "for_each (\<lambda>dep s. if dep \<in> set rem \<and> dep \<notin> completed_actions s
                      then execute_action R ext n dep rem s else Done s) os"
    have hard: "post P Q ?hard"
    proof (rule for_each_post [where P = P])
      show "P st" by (rule Pst)
    next
      fix x s assume "x \<in> set hs" "P s"
      then show "post P Q (if x \<notin> completed_actions s
                      then execute_action R ext n x rem s else Done s)"
        using cl(1) by (auto intro: Suc.IH)
    qed
    have hard_done: "set hs \<subseteq> completed_actions s1" if "?hard = Done s1" for s1
      using for_each_completed [of "\<lambda>_. True" R ext n rem hs st s1] that by auto
    have order: "post P Q (?order s1)" if "P s1" for s1
    proof (rule for_each_post [where P = P])
      show "P s1" by (rule that)
    next
      fix x s assume "x \<in> set os" "P s"
      then show "post P Q (if x \<in> set rem \<and> x \<notin> completed_actions s
                      then execute_action R ext n x rem s else Done s)"
        using cl(2) by (auto intro: Suc.IH)
    qed
    have order_done: "completed_actions s1 \<subseteq> completed_actions s2
        \<and> (\<forall>d\<in>set os. d \<in> set rem \<longrightarrow> d \<in> completed_actions s2)"
      if "?order s1 = Done s2" for s1 s2
      using for_each_completed [of "\<lambda>d. d \<in> set rem" R ext n rem os s1 s2] that by auto
    have final: "post P Q
        (and_then
          (if a \<in> completed_actions s2 then Done s2
           else (case func of
                   Str target \<Rightarrow> if R target \<noteq> None then execute_action R ext n target rem s2
                                 else Raised TypeError s2
                 | Fn f \<Rightarrow> invoke ext f a s2))
          (\<lambda>s3. Done (s3\<lparr>completed_actions := insert a (completed_actions s3)\<rparr>)))"
      if P: "P s2" and hs: "set hs \<subseteq> completed_actions s2"
        and os: "\<forall>d\<in>set os. d \<in> set rem \<longrightarrow> d \<in> completed_actions s2" for s2
    proof (cases "a \<in> completed_actions s2")
      case True
      then show ?thesis using P by (simp add: completed_absorb)
    next
      case False
      show ?thesis
      proof (cases func)
        case (Fn f)
        have "post (\<lambda>s'. P (s'\<lparr>completed_actions := insert a (completed_actions s')\<rparr>)) Q
                (invoke ext f a s2)"
          using invoke_step [OF aS P Ra [unfolded Fn] False hs os] .
        then show ?thesis using False Fn
          by (cases "invoke ext f a s2") auto
      next
        case (Str b)
        show ?thesis
        proof (cases "R b = None")
          case True
          then show ?thesis using False Str P by (simp add: error_step)
        next
          case nn: False
          have bS: "b \<in> S" using cl(3) Str by simp
          have rec: "post P Q (execute_action R ext n b rem s2)"
            using Suc.IH [OF bS P] .
          show ?thesis
          proof (cases "execute_action R ext n b rem s2")
            case (Done s3)
            have "P (s3\<lparr>completed_actions := insert a (completed_actions s3)\<rparr>)"
            proof (rule alias_step [OF aS _ Ra [unfolded Str] nn])
              show "P s3" using rec Done by simp
              show "b \<in> completed_actions s3" using Done by (rule execute_action_completes)
              show "set hs \<subseteq> completed_actions s3"
                using hs execute_action_grows [OF Done] by blast
              show "\<forall>d\<in>set os. d \<in> set rem \<longrightarrow> d \<in> completed_actions s3"
                using os execute_action_grows [OF Done] by blast
            qed
            then show ?thesis using False Str nn Done by simp
          next
            case (Raised e s3)
            then show ?thesis using rec False Str nn by simp
          qed
        qed
      qed
    qed
    have "post P Q
      (and_then ?hard (\<lambda>s1. and_then (?order s1) (\<lambda>s2.
        and_then
          (if a \<in> completed_actions s2 then Done s2
           else (case func of
                   Str target \<Rightarrow> if R target \<noteq> None then execute_action R ext n target rem s2
                                 else Raised TypeError s2
                 | Fn f \<Rightarrow> invoke ext f a s2))
          (\<lambda>s3. Done (s3\<lparr>completed_actions := insert a (completed_actions s3)\<rparr>)))))"
    proof (rule and_then_post [where P = P, OF hard])
      fix s1 assume h1: "?hard = Done s1" and P1: "P s1"
      show "post P Q (and_then (?order s1) (\<lambda>s2.
        and_then
          (if a \<in> completed_actions s2 then Done s2
           else (case func of
                   Str target \<Rightarrow> if R target \<noteq> None then execute_action R ext n target rem s2
                                 else Raised TypeError s2
                 | Fn f \<Rightarrow> invoke ext f a s2))
          (\<lambda>s3. Done (s3\<lparr>completed_actions := insert a (completed_actions s3)\<rparr>))))"
      proof (rule and_then_post [where P = P, OF order [OF P1]])
        fix s2 assume h2: "?order s1 = Done s2" and P2: "P s2"
        from hard_done [OF h1] order_done [OF h2]
        have "set hs \<subseteq> completed_actions s2"
          and "\<forall>d\<in>set os. d \<in> set rem \<longrightarrow> d \<in> completed_actions s2" by auto
        then show "post P Q
          (and_then
            (if a \<in> completed_actions s2 then Done s2
             else (case func of
                   Str target \<Rightarrow> if R target \<noteq> None then execute_action R ext n target rem s2
                                 else Raised TypeError s2
                 | Fn f \<Rightarrow> invoke ext f a s2))
            (\<lambda>s3. Done (s3\<lparr>completed_actions := insert a (completed_actions s3)\<rparr>)))"
          by (rule final [OF P2])
      qed
    qed
    then show ?thesis by (simp add: Ra)
  qed
qed

subsection \<open>The log of a run and its invariants\<close>

text \<open>\<open>before xs x y\<close>: \<open>y\<close> occurs in \<open>xs\<close>, and \<open>x\<close> occurs ahead of its first occurrence.\<close>

definition before :: "'a list \<Rightarrow> 'a \<Rightarrow> 'a \<Rightarrow> bool" where
  "before xs x y \<longleftrightarrow> y \<in> set xs \<and> x \<in> set (takeWhile (\<lambda>z. z \<noteq> y) xs)"

lemma before_append: "before xs x y \<Longrightarrow> before (xs @ ys) x y"
  by (auto simp: before_def takeWhile_append1)

lemma before_snoc:
  assumes "x \<in> set xs" "y \<notin> set xs"
  shows "before (xs @ [y]) x y"
proof -
  have "\<forall>z\<in>set xs. z \<noteq> y" using assms(2) by auto
  then have "takeWhile (\<lambda>z. z \<noteq> y) (xs @ [y]) = xs"
    by (simp add: takeWhile_append2)
  then show ?thesis using assms(1) by (simp add: before_def)
qed


lemma before_split:
  assumes "before xs x y"
  shows "\<exists>pre post. xs = pre @ y # post \<and> x \<in> set pre \<and> y \<notin> set pre"
proof -
  let ?pre = "takeWhile (\<lambda>z. z \<noteq> y) xs"
  from assms have y: "y \<in> set xs" and x: "x \<in> set ?pre" by (auto simp: before_def)
  from y have "dropWhile (\<lambda>z. z \<noteq> y) xs \<noteq> []" by (auto simp: dropWhile_eq_Nil_conv)
  then have "hd (dropWhile (\<lambda>z. z \<noteq> y) xs) = y"
    using hd_dropWhile [of "\<lambda>z. z \<noteq> y" xs] by simp
  with \<open>dropWhile (\<lambda>z. z \<noteq> y) xs \<noteq> []\<close>
  obtain post where d: "dropWhile (\<lambda>z. z \<noteq> y) xs = y # post"
    by (cases "dropWhile (\<lambda>z. z \<noteq> y) xs") auto
  have "xs = ?pre @ y # post" using takeWhile_dropWhile_id [of "\<lambda>z. z \<noteq> y" xs] d by simp
  moreover have "y \<notin> set ?pre" by (auto dest: set_takeWhileD)
  ultimately show ?thesis using x by blast
qed

text \<open>
  The handler invocation an action stands for: the successful call of its own
  function with its own name or, for an alias, the one its target stands for. The
  number bounds the length of the alias chain followed.
\<close>

primrec handler_event :: "registry \<Rightarrow> nat \<Rightarrow> string \<Rightarrow> event option" where
  "handler_event R 0 a = None"
| "handler_event R (Suc k) a =
     (case R a of
        None \<Rightarrow> None
      | Some (func, hs, os) \<Rightarrow>
          (case func of Fn f \<Rightarrow> Some (Call f a None) | Str b \<Rightarrow> handler_event R k b))"

lemma handler_event_unique:
  "handler_event R k a = Some ev \<Longrightarrow> handler_event R k' a = Some ev' \<Longrightarrow> ev = ev'"
proof (induction k arbitrary: k' a)
  case 0
  then show ?case by simp
next
  case (Suc k)
  from Suc.prems(2) obtain j where k': "k' = Suc j" by (cases k') auto
  from Suc.prems(1) obtain func hs os where Ra: "R a = Some (func, hs, os)"
    by (cases "R a") auto
  show ?case
  proof (cases func)
    case (Fn f)
    with Suc.prems Ra k' show ?thesis by simp
  next
    case (Str b)
    with Suc.prems Ra k' have "handler_event R k b = Some ev" "handler_event R j b = Some ev'"
      by simp_all
    then show ?thesis by (rule Suc.IH)
  qed
qed

text \<open>The invariants of the log: no action name is logged twice;\<close>

definition logged_once :: "'w state \<Rightarrow> bool" where
  "logged_once s \<longleftrightarrow> distinct (map arg (trace s))"

text \<open>every logged call succeeded, and called the function of a completed action of the
  table with the name of that action;\<close>

definition log_sound :: "registry \<Rightarrow> 'w state \<Rightarrow> bool" where
  "log_sound R s \<longleftrightarrow>
     (\<forall>ev\<in>set (trace s). res ev = None \<and> arg ev \<in> completed_actions s
        \<and> (\<exists>hs os. R (arg ev) = Some (Fn (fn ev), hs, os)))"

text \<open>every completed action is in the table, its hard dependencies are completed, and
  the handler invocation it stands for is logged;\<close>

definition completed_sound :: "registry \<Rightarrow> 'w state \<Rightarrow> bool" where
  "completed_sound R s \<longleftrightarrow>
     (\<forall>a\<in>completed_actions s.
        (case R a of
           None \<Rightarrow> False
         | Some (func, hs, os) \<Rightarrow> set hs \<subseteq> completed_actions s)
        \<and> (\<exists>k ev. handler_event R k a = Some ev \<and> ev \<in> set (trace s)))"

text \<open>and for every logged call, the handler invocation of each hard dependency of its
  action is logged before it.\<close>

definition hard_first :: "registry \<Rightarrow> 'w state \<Rightarrow> bool" where
  "hard_first R s \<longleftrightarrow>
     (\<forall>ev\<in>set (trace s). \<forall>func hs os. R (arg ev) = Some (func, hs, os) \<longrightarrow>
        (\<forall>d\<in>set hs. \<exists>k ev'. handler_event R k d = Some ev' \<and> before (trace s) ev' ev))"

definition consistent :: "registry \<Rightarrow> 'w state \<Rightarrow> bool" where
  "consistent R s \<longleftrightarrow> logged_once s \<and> log_sound R s \<and> completed_sound R s \<and> hard_first R s"

text \<open>
  The state in which an exception leaves a run: a consistent state, or a consistent
  state whose log got one more call, of a handler that raised the exception, for an
  action that was not completed and whose hard dependencies were.
\<close>

definition failed_after :: "registry \<Rightarrow> exn \<Rightarrow> 'w state \<Rightarrow> bool" where
  "failed_after R e s \<longleftrightarrow>
     (\<exists>s0. consistent R s0 \<and>
        (s = s0 \<or>
         (\<exists>f a hs os w'. s = s0\<lparr>trace := trace s0 @ [Call f a (Some e)], world := w'\<rparr>
            \<and> R a = Some (Fn f, hs, os) \<and> a \<notin> completed_actions s0
            \<and> set hs \<subseteq> completed_actions s0)))"

lemma completed_soundD:
  assumes "completed_sound R s" "a \<in> completed_actions s"
  shows "\<exists>func hs os. R a = Some (func, hs, os) \<and> set hs \<subseteq> completed_actions s"
    and "\<exists>k ev. handler_event R k a = Some ev \<and> ev \<in> set (trace s)"
proof -
  from assms have *: "(case R a of None \<Rightarrow> False
      | Some (func, hs, os) \<Rightarrow> set hs \<subseteq> completed_actions s)
      \<and> (\<exists>k ev. handler_event R k a = Some ev \<and> ev \<in> set (trace s))"
    unfolding completed_sound_def by (rule bspec)
  then show "\<exists>k ev. handler_event R k a = Some ev \<and> ev \<in> set (trace s)" by simp
  from * obtain func hs os where Ra: "R a = Some (func, hs, os)"
    by (cases "R a") auto
  with * show "\<exists>func hs os. R a = Some (func, hs, os) \<and> set hs \<subseteq> completed_actions s"
    by simp
qed

lemma completed_soundI:
  assumes "\<And>a. a \<in> completed_actions s \<Longrightarrow>
      \<exists>func hs os. R a = Some (func, hs, os) \<and> set hs \<subseteq> completed_actions s"
    and "\<And>a. a \<in> completed_actions s \<Longrightarrow>
      \<exists>k ev. handler_event R k a = Some ev \<and> ev \<in> set (trace s)"
  shows "completed_sound R s"
  unfolding completed_sound_def
proof
  fix a assume a: "a \<in> completed_actions s"
  from assms(1) [OF a] obtain func hs os where "R a = Some (func, hs, os)"
    "set hs \<subseteq> completed_actions s" by blast
  then have "case R a of None \<Rightarrow> False
      | Some (func, hs, os) \<Rightarrow> set hs \<subseteq> completed_actions s" by simp
  with assms(2) [OF a]
  show "(case R a of None \<Rightarrow> False
      | Some (func, hs, os) \<Rightarrow> set hs \<subseteq> completed_actions s)
      \<and> (\<exists>k ev. handler_event R k a = Some ev \<and> ev \<in> set (trace s))" by simp
qed

lemma log_sound_names:
  "log_sound R s \<Longrightarrow> a \<notin> completed_actions s \<Longrightarrow> a \<notin> arg ` set (trace s)"
  by (auto simp: log_sound_def)

lemma consistent_invoke_ok:
  assumes c: "consistent R s" and Ra: "R a = Some (Fn f, hs, os)"
    and a: "a \<notin> completed_actions s" and hs: "set hs \<subseteq> completed_actions s"
  shows "consistent R (s\<lparr>trace := trace s @ [Call f a None], world := w',
            completed_actions := insert a (completed_actions s)\<rparr>)"
    (is "consistent R ?s'")
proof -
  from c have lo: "logged_once s" and ls: "log_sound R s" and cs: "completed_sound R s"
    and hf: "hard_first R s" by (simp_all add: consistent_def)
  have fresh: "a \<notin> arg ` set (trace s)" using ls a by (rule log_sound_names)
  then have new: "Call f a None \<notin> set (trace s)" by force
  have 1: "logged_once ?s'" using lo fresh by (simp add: logged_once_def)
  have 2: "log_sound R ?s'" using ls Ra by (auto simp: log_sound_def)
  have 3: "completed_sound R ?s'"
  proof (rule completed_soundI)
    fix x assume "x \<in> completed_actions ?s'"
    then consider "x = a" | "x \<in> completed_actions s" by auto
    then show "\<exists>func hs os. R x = Some (func, hs, os) \<and> set hs \<subseteq> completed_actions ?s'"
    proof cases
      case 1
      then show ?thesis using Ra hs by (simp add: subset_insertI2)
    next
      case 2
      from completed_soundD(1) [OF cs 2] obtain func' hs' os'
        where "R x = Some (func', hs', os')" "set hs' \<subseteq> completed_actions s" by blast
      moreover have "completed_actions s \<subseteq> completed_actions ?s'" by auto
      ultimately show ?thesis by blast
    qed
  next
    fix x assume "x \<in> completed_actions ?s'"
    then consider "x = a" | "x \<in> completed_actions s" by auto
    then show "\<exists>k ev. handler_event R k x = Some ev \<and> ev \<in> set (trace ?s')"
    proof cases
      case 1
      have "handler_event R (Suc 0) x = Some (Call f a None)" using Ra 1 by simp
      moreover have "Call f a None \<in> set (trace ?s')" by simp
      ultimately show ?thesis by blast
    next
      case 2
      from completed_soundD(2) [OF cs 2] obtain k ev
        where "handler_event R k x = Some ev" "ev \<in> set (trace s)" by blast
      moreover have "set (trace s) \<subseteq> set (trace ?s')" by auto
      ultimately show ?thesis by blast
    qed
  qed
  have 4: "hard_first R ?s'"
    unfolding hard_first_def
  proof (intro ballI allI impI)
    fix ev func hs' os' d
    assume ev: "ev \<in> set (trace ?s')" and Rev: "R (arg ev) = Some (func, hs', os')"
      and d: "d \<in> set hs'"
    from ev consider "ev \<in> set (trace s)" | "ev = Call f a None" by auto
    then show "\<exists>k ev'. handler_event R k d = Some ev' \<and> before (trace ?s') ev' ev"
    proof cases
      case 1
      with hf Rev d obtain k ev' where k: "handler_event R k d = Some ev'"
        and b: "before (trace s) ev' ev" unfolding hard_first_def by blast
      from b have "before (trace ?s') ev' ev" by (simp add: before_append)
      with k show ?thesis by blast
    next
      case 2
      with Rev Ra have "hs' = hs" by simp
      with d hs have "d \<in> completed_actions s" by auto
      from completed_soundD(2) [OF cs this] obtain k ev'
        where k: "handler_event R k d = Some ev'" and e: "ev' \<in> set (trace s)" by blast
      from e new 2 have "before (trace ?s') ev' ev" by (simp add: before_snoc)
      with k show ?thesis by blast
    qed
  qed
  from 1 2 3 4 show ?thesis by (simp add: consistent_def)
qed

lemma consistent_invoke:
  assumes "consistent R s" "R a = Some (Fn f, hs, os)"
    "a \<notin> completed_actions s" "set hs \<subseteq> completed_actions s"
  shows "post (\<lambda>s'. consistent R (s'\<lparr>completed_actions := insert a (completed_actions s')\<rparr>))
           (failed_after R) (invoke ext f a s)"
proof (cases "call ext f a (world s)")
  case (Pair r w')
  show ?thesis
  proof (cases r)
    case None
    with Pair consistent_invoke_ok [OF assms, of w'] show ?thesis
      by (simp add: invoke_def)
  next
    case (Some e)
    have "failed_after R e (s\<lparr>trace := trace s @ [Call f a (Some e)], world := w'\<rparr>)"
      unfolding failed_after_def using assms by blast
    with Pair Some show ?thesis
      by (simp add: invoke_def)
  qed
qed

lemma consistent_alias:
  assumes c: "consistent R s" and Ra: "R a = Some (Str b, hs, os)"
    and b: "b \<in> completed_actions s" and hs: "set hs \<subseteq> completed_actions s"
  shows "consistent R (s\<lparr>completed_actions := insert a (completed_actions s)\<rparr>)"
    (is "consistent R ?s'")
proof -
  from c have lo: "logged_once s" and ls: "log_sound R s" and cs: "completed_sound R s"
    and hf: "hard_first R s" by (simp_all add: consistent_def)
  have 1: "logged_once ?s'" using lo by (simp add: logged_once_def)
  have 2: "log_sound R ?s'" using ls by (auto simp: log_sound_def)
  have 3: "completed_sound R ?s'"
  proof (rule completed_soundI)
    fix x assume "x \<in> completed_actions ?s'"
    then consider "x = a" | "x \<in> completed_actions s" by auto
    then show "\<exists>func hs os. R x = Some (func, hs, os) \<and> set hs \<subseteq> completed_actions ?s'"
    proof cases
      case 1
      then show ?thesis using Ra hs by (simp add: subset_insertI2)
    next
      case 2
      from completed_soundD(1) [OF cs 2] obtain func' hs' os'
        where "R x = Some (func', hs', os')" "set hs' \<subseteq> completed_actions s" by blast
      moreover have "completed_actions s \<subseteq> completed_actions ?s'" by auto
      ultimately show ?thesis by blast
    qed
  next
    fix x assume "x \<in> completed_actions ?s'"
    then consider "x = a" | "x \<in> completed_actions s" by auto
    then show "\<exists>k ev. handler_event R k x = Some ev \<and> ev \<in> set (trace ?s')"
    proof cases
      case 1
      from completed_soundD(2) [OF cs b] obtain k ev
        where k: "handler_event R k b = Some ev" "ev \<in> set (trace s)" by blast
      have "handler_event R (Suc k) x = Some ev" using Ra k(1) 1 by simp
      moreover have "ev \<in> set (trace ?s')" using k(2) by simp
      ultimately show ?thesis by blast
    next
      case 2
      from completed_soundD(2) [OF cs 2] obtain k ev
        where "handler_event R k x = Some ev" "ev \<in> set (trace s)" by blast
      moreover have "set (trace s) \<subseteq> set (trace ?s')" by auto
      ultimately show ?thesis by blast
    qed
  qed
  have 4: "hard_first R ?s'" using hf by (simp add: hard_first_def)
  from 1 2 3 4 show ?thesis by (simp add: consistent_def)
qed

lemma consistent_failed: "consistent R s \<Longrightarrow> failed_after R e s"
  by (auto simp: failed_after_def)

lemma execute_action_consistent:
  assumes "consistent R st"
  shows "post (consistent R) (failed_after R) (execute_action R ext n a rem st)"
proof (rule execute_action_rule [where S = UNIV and P = "consistent R"])
  show "closed_under R rem UNIV" by simp
  show "a \<in> UNIV" by simp
  show "consistent R st" by (rule assms)
qed (auto intro: consistent_invoke consistent_alias consistent_failed)

lemma consistent_actions_update [simp]:
  "consistent R (s\<lparr>actions := x\<rparr>) = consistent R s"
  by (simp add: consistent_def logged_once_def log_sound_def completed_sound_def hard_first_def
      split: option.split)

lemma consistent_init: "consistent R (init acts w)"
  by (simp add: init_def consistent_def logged_once_def log_sound_def completed_sound_def
      hard_first_def)


lemma run_loop_consistent:
  "consistent R st \<Longrightarrow>
   post (\<lambda>s. consistent R s \<and> actions s = [] \<and> set (actions st) \<subseteq> completed_actions s
            \<and> completed_actions st \<subseteq> completed_actions s)
        (failed_after R) (run_loop R ext n st)"
proof (induction "actions st" arbitrary: st)
  case Nil
  then show ?case by (simp add: run_loop_Nil)
next
  case (Cons a rest)
  from Cons.hyps(2) have acts: "actions st = a # rest" by simp
  let ?out = "execute_action R ext n a rest st"
  have step: "post (consistent R) (failed_after R) ?out"
    using Cons.prems by (rule execute_action_consistent)
  show ?case
  proof (cases ?out)
    case (Done s)
    let ?s = "s\<lparr>actions := rest\<rparr>"
    have c: "consistent R s" using step Done by simp
    have "post (\<lambda>s'. consistent R s' \<and> actions s' = [] \<and> set (actions ?s) \<subseteq> completed_actions s'
            \<and> completed_actions ?s \<subseteq> completed_actions s')
        (failed_after R) (run_loop R ext n ?s)"
      by (rule Cons.hyps(1)) (simp_all add: c)
    moreover have "a \<in> completed_actions s" using Done by (rule execute_action_completes)
    moreover have "completed_actions st \<subseteq> completed_actions s"
      using Done by (rule execute_action_grows)
    ultimately show ?thesis using Done acts
      by (cases "run_loop R ext n ?s") (auto simp: run_loop_Cons)
  next
    case (Raised e s)
    then show ?thesis using step acts by (simp add: run_loop_Cons)
  qed
qed

lemma run_consistent:
  "post (\<lambda>s. consistent R s \<and> actions s = [] \<and> set acts \<subseteq> completed_actions s)
        (failed_after R) (run R ext n acts w)"
proof -
  have "post (\<lambda>s. consistent R s \<and> actions s = []
            \<and> set (actions (init acts w)) \<subseteq> completed_actions s
            \<and> completed_actions (init acts w :: 'a state) \<subseteq> completed_actions s)
        (failed_after R) (run_loop R ext n (init acts w))"
    by (rule run_loop_consistent) (rule consistent_init)
  then show ?thesis
    by (cases "run_loop R ext n (init acts w)") (simp_all add: run_def init_def)
qed

subsection \<open>The argument files of \<open>flash\<close>\<close>

text \<open>
  C9. Every action of the shipped table whose function is \<open>flash\<close> is a key of the
  dictionary inside \<open>flash\<close>: the subscript there does not raise, and the call goes
  on to the rest of the handler.
\<close>

theorem flash_action_has_argfile:
  assumes "ACTIONS a = Some (Fn flash, hs, os)"
  shows "flasher_args_path a \<noteq> None \<and> call ext flash a w = ext flash a w"
proof -
  from assms have "(a, (Fn flash, hs, os)) \<in> set ACTIONS_list"
    unfolding ACTIONS_def by (rule map_of_SomeD)
  then have "a \<in> {''bootloader-flash'', ''app-flash'', ''partition_table-flash'', ''flash''}"
    by (auto simp: ACTIONS_list_def)
  then have "flasher_args_path a \<noteq> None"
    by (auto simp: flasher_args_path_def)
  then show ?thesis by (auto simp: call_def)
qed

theorem flash_action_has_argfile_witness:
  "ACTIONS ''app-flash'' = Some (Fn flash, [], [''app''])
   \<and> flasher_args_path ''app-flash'' \<noteq> None
   \<and> call succeed flash ''app-flash'' () = succeed flash ''app-flash'' ()"
proof -
  have h: "ACTIONS ''app-flash'' = Some (Fn flash, [], [''app''])"
    by (simp add: ACTIONS_def ACTIONS_list_def)
  show ?thesis using h flash_action_has_argfile [OF h, of succeed "()"] by simp
qed

subsection \<open>States reached by runs\<close>

lemma distinct_count_le1: "distinct xs \<Longrightarrow> count_list xs x \<le> 1"
  by (induction xs) auto

lemma distinct_count_1: "distinct xs \<Longrightarrow> x \<in> set xs \<Longrightarrow> count_list xs x = 1"
  by (induction xs) auto

lemma handler_event_res: "handler_event R k a = Some ev \<Longrightarrow> res ev = None"
proof (induction k arbitrary: a)
  case 0
  then show ?case by simp
next
  case (Suc k)
  then show ?case
    by (auto split: option.splits operation.splits)
qed

lemma consistent_no_failure:
  "consistent R s \<Longrightarrow> ev \<in> set (trace s) \<Longrightarrow> res ev = None"
  by (simp add: consistent_def log_sound_def)

lemma failed_after_cases:
  assumes "failed_after R e s"
  obtains "consistent R s"
  | s0 f a hs os w' where "consistent R s0"
      "s = s0\<lparr>trace := trace s0 @ [Call f a (Some e)], world := w'\<rparr>"
      "R a = Some (Fn f, hs, os)" "a \<notin> completed_actions s0" "set hs \<subseteq> completed_actions s0"
  using assms unfolding failed_after_def by blast

lemma failed_after_logged_once:
  assumes "failed_after R e s"
  shows "logged_once s"
  using assms
proof (cases rule: failed_after_cases)
  case 1
  then show ?thesis by (simp add: consistent_def)
next
  case (2 s0 f a hs os w')
  from 2(1) have "logged_once s0" "log_sound R s0" by (simp_all add: consistent_def)
  moreover from this(2) 2(4) have "a \<notin> arg ` set (trace s0)" by (rule log_sound_names)
  ultimately show ?thesis using 2(2) by (simp add: logged_once_def)
qed

lemma failed_after_hard_first:
  assumes "failed_after R e s"
  shows "hard_first R s"
  using assms
proof (cases rule: failed_after_cases)
  case 1
  then show ?thesis by (simp add: consistent_def)
next
  case (2 s0 f a hs os w')
  from 2(1) have hf: "hard_first R s0" and cs: "completed_sound R s0"
    by (simp_all add: consistent_def)
  have new: "Call f a (Some e) \<notin> set (trace s0)"
    using consistent_no_failure [OF 2(1), of "Call f a (Some e)"] by auto
  have tr: "trace s = trace s0 @ [Call f a (Some e)]" using 2(2) by simp
  show ?thesis
    unfolding hard_first_def
  proof (intro ballI allI impI)
    fix ev func hs' os' d
    assume ev: "ev \<in> set (trace s)" and Rev: "R (arg ev) = Some (func, hs', os')"
      and d: "d \<in> set hs'"
    from ev tr consider "ev \<in> set (trace s0)" | "ev = Call f a (Some e)" by auto
    then show "\<exists>k ev'. handler_event R k d = Some ev' \<and> before (trace s) ev' ev"
    proof cases
      case 1
      with hf Rev d obtain k ev' where k: "handler_event R k d = Some ev'"
        and b: "before (trace s0) ev' ev" unfolding hard_first_def by blast
      from b have "before (trace s) ev' ev" by (simp add: tr before_append)
      with k show ?thesis by blast
    next
      case c: 2
      with Rev 2(3) have "hs' = hs" by simp
      with d 2(5) have "d \<in> completed_actions s0" by auto
      from completed_soundD(2) [OF cs this] obtain k ev'
        where k: "handler_event R k d = Some ev'" and e: "ev' \<in> set (trace s0)" by blast
      from e new c have "before (trace s) ev' ev" by (simp add: tr before_snoc)
      with k show ?thesis by blast
    qed
  qed
qed

lemma failed_after_shape:
  assumes "failed_after R e0 s" and "Call f a (Some e) \<in> set (trace s)"
  shows "e = e0 \<and> (\<exists>pre. trace s = pre @ [Call f a (Some e)] \<and> (\<forall>ev\<in>set pre. res ev = None))"
  using assms(1)
proof (cases rule: failed_after_cases)
  case 1
  from consistent_no_failure [OF 1 assms(2)] show ?thesis by simp
next
  case (2 s0 f' a' hs os w')
  have old: "\<forall>ev\<in>set (trace s0). res ev = None"
    using consistent_no_failure [OF 2(1)] by blast
  with assms(2) 2(2) have "Call f a (Some e) = Call f' a' (Some e0)" by auto
  with 2(2) old show ?thesis by auto
qed

subsection \<open>What a finished run has completed\<close>

text \<open>
  C10. When \<open>run\<close> returns without an exception, every requested name is in
  \<open>completed_actions\<close>, the list \<open>args.actions\<close> is empty, and for every action whose
  handler was invoked all hard dependencies are in \<open>completed_actions\<close>.
\<close>

theorem run_completes_requested:
  assumes "run R ext n acts w = Done s"
  shows "set acts \<subseteq> completed_actions s \<and> actions s = []
    \<and> (\<forall>ev\<in>set (trace s). \<forall>func hs os.
          R (arg ev) = Some (func, hs, os) \<longrightarrow> set hs \<subseteq> completed_actions s)"
proof -
  from run_consistent [of R acts ext n w] assms
  have c: "consistent R s" and a: "actions s = []" and r: "set acts \<subseteq> completed_actions s"
    by simp_all
  from c have ls: "log_sound R s" and cs: "completed_sound R s"
    by (simp_all add: consistent_def)
  have "set hs \<subseteq> completed_actions s"
    if ev: "ev \<in> set (trace s)" and Rev: "R (arg ev) = Some (func, hs, os)" for ev func hs os
  proof -
    from ls ev have "arg ev \<in> completed_actions s" by (simp add: log_sound_def)
    from completed_soundD(1) [OF cs this] Rev show ?thesis by auto
  qed
  with a r show ?thesis by blast
qed

lemma run_clean_flash_succeed:
  "run ACTIONS succeed 2 [''clean'', ''flash''] ()
     = Done \<lparr>completed_actions = {''flash'', ''all'', ''clean''}, actions = [],
             trace = [Call clean ''clean'' None, Call build_target ''all'' None,
                      Call flash ''flash'' None], world = ()\<rparr>"
  by (simp add: run_def init_def run_loop_Cons run_loop_Nil ACTIONS_clean ACTIONS_flash
        ACTIONS_all invoke_def call_def flasher_args_path_flash succeed_def numeral_2_eq_2)

theorem run_completes_requested_witness:
  "run ACTIONS succeed 2 [''clean'', ''flash''] ()
     = Done \<lparr>completed_actions = {''flash'', ''all'', ''clean''}, actions = [],
             trace = [Call clean ''clean'' None, Call build_target ''all'' None,
                      Call flash ''flash'' None], world = ()\<rparr>
   \<and> set [''clean'', ''flash''] \<subseteq> {''flash'', ''all'', ''clean''}
   \<and> ACTIONS ''flash'' = Some (Fn flash, [''all''], [])
   \<and> set [''all''] \<subseteq> {''flash'', ''all'', ''clean''}"
proof -
  note t = run_completes_requested [OF run_clean_flash_succeed]
  from t have 1: "set [''clean'', ''flash''] \<subseteq> {''flash'', ''all'', ''clean''}" by simp
  from t have "\<forall>func hs os. ACTIONS (arg (Call flash ''flash'' None)) = Some (func, hs, os)
      \<longrightarrow> set hs \<subseteq> {''flash'', ''all'', ''clean''}"
    by simp
  with ACTIONS_flash have 2: "set [''all''] \<subseteq> {''flash'', ''all'', ''clean''}" by simp
  from 1 2 run_clean_flash_succeed ACTIONS_flash show ?thesis by blast
qed

lemma run_logged_once: "logged_once (state_of (run R ext n acts w))"
  using run_consistent [of R acts ext n w]
  by (cases "run R ext n acts w") (auto simp: consistent_def dest: failed_after_logged_once)

lemma run_hard_first: "hard_first R (state_of (run R ext n acts w))"
  using run_consistent [of R acts ext n w]
  by (cases "run R ext n acts w") (auto simp: consistent_def dest: failed_after_hard_first)

subsection \<open>Each handler runs once\<close>

text \<open>
  C1. In every run, whatever its outcome, no action name is passed to a handler more
  than once. In a run that finishes, every requested action (however often it is
  requested) and every completed action (however many dependency paths reach it)
  has had the handler it stands for invoked, successfully, exactly once.
\<close>

theorem handler_invoked_once:
  "count_list (map arg (trace (state_of (run R ext n acts w)))) b \<le> 1
   \<and> (run R ext n acts w = Done s \<longrightarrow> a \<in> set acts \<union> completed_actions s \<longrightarrow>
        (\<exists>k ev. handler_event R k a = Some ev \<and> ev \<in> set (trace s)
           \<and> count_list (map arg (trace s)) (arg ev) = 1))"
proof (intro conjI impI)
  show "count_list (map arg (trace (state_of (run R ext n acts w)))) b \<le> 1"
    using run_logged_once [of R ext n acts w] unfolding logged_once_def
    by (rule distinct_count_le1)
next
  assume d: "run R ext n acts w = Done s" and a: "a \<in> set acts \<union> completed_actions s"
  from run_consistent [of R acts ext n w] d
  have c: "consistent R s" and r: "set acts \<subseteq> completed_actions s" by simp_all
  from c have lo: "logged_once s" and cs: "completed_sound R s" by (simp_all add: consistent_def)
  from a r have "a \<in> completed_actions s" by auto
  from completed_soundD(2) [OF cs this] obtain k ev
    where k: "handler_event R k a = Some ev" and e: "ev \<in> set (trace s)" by blast
  from e have "arg ev \<in> set (map arg (trace s))" by simp
  with lo have "count_list (map arg (trace s)) (arg ev) = 1"
    unfolding logged_once_def by (rule distinct_count_1)
  with k e show "\<exists>k ev. handler_event R k a = Some ev \<and> ev \<in> set (trace s)
           \<and> count_list (map arg (trace s)) (arg ev) = 1" by blast
qed

lemma ACTIONS_build: "ACTIONS ''build'' = Some (Str ''all'', [], [])"
  by (simp add: ACTIONS_def ACTIONS_list_def)

lemma run_build_flash_build_succeed:
  "run ACTIONS succeed 2 [''build'', ''flash'', ''build''] ()
     = Done \<lparr>completed_actions = {''flash'', ''build'', ''all''}, actions = [],
             trace = [Call build_target ''all'' None, Call flash ''flash'' None],
             world = ()\<rparr>"
  by (simp add: run_def init_def run_loop_Cons run_loop_Nil ACTIONS_build ACTIONS_flash
        ACTIONS_all invoke_def call_def flasher_args_path_flash succeed_def numeral_2_eq_2
        insert_commute)

theorem handler_invoked_once_witness:
  "run ACTIONS succeed 2 [''build'', ''flash'', ''build''] ()
     = Done \<lparr>completed_actions = {''flash'', ''build'', ''all''}, actions = [],
             trace = [Call build_target ''all'' None, Call flash ''flash'' None],
             world = ()\<rparr>
   \<and> count_list [''build'', ''flash'', ''build''] ''build'' = 2
   \<and> handler_event ACTIONS 2 ''build'' = Some (Call build_target ''all'' None)
   \<and> count_list (map arg [Call build_target ''all'' None, Call flash ''flash'' None]) ''all'' = 1"
proof -
  let ?S = "\<lparr>completed_actions = {''flash'', ''build'', ''all''}, actions = [],
             trace = [Call build_target ''all'' None, Call flash ''flash'' None],
             world = ()\<rparr>"
  note h = run_build_flash_build_succeed
  have e: "handler_event ACTIONS 2 ''build'' = Some (Call build_target ''all'' None)"
    by (simp add: numeral_2_eq_2 ACTIONS_build ACTIONS_all)
  have m: "''build'' \<in> set [''build'', ''flash'', ''build''] \<union> completed_actions ?S"
    by simp
  note t = handler_invoked_once [of ACTIONS succeed 2 "[''build'', ''flash'', ''build'']" "()"
      "''all''" ?S "''build''"]
  from t have "run ACTIONS succeed 2 [''build'', ''flash'', ''build''] () = Done ?S \<longrightarrow>
      ''build'' \<in> set [''build'', ''flash'', ''build''] \<union> completed_actions ?S \<longrightarrow>
        (\<exists>k ev. handler_event ACTIONS k ''build'' = Some ev \<and> ev \<in> set (trace ?S)
           \<and> count_list (map arg (trace ?S)) (arg ev) = 1)"
    by (rule conjunct2)
  from this [rule_format, OF h m] obtain k ev
    where k: "handler_event ACTIONS k ''build'' = Some ev"
      and c: "count_list (map arg (trace ?S)) (arg ev) = 1"
    by blast
  from k e have "ev = Call build_target ''all'' None" by (rule handler_event_unique)
  with c have "count_list (map arg [Call build_target ''all'' None, Call flash ''flash'' None])
      ''all'' = 1" by simp
  with h e show ?thesis by simp
qed

subsection \<open>Hard dependencies run first\<close>

text \<open>
  C2. In every run, whatever its outcome and whatever was requested: when a handler
  is invoked for an action, then for each hard dependency of that action the handler
  that dependency stands for has been invoked before, and has returned without an
  exception.
\<close>

theorem hard_dependency_first:
  assumes "ev \<in> set (trace (state_of (run R ext n acts w)))"
    and "R (arg ev) = Some (func, hs, os)" and "d \<in> set hs"
  shows "\<exists>k ev'. handler_event R k d = Some ev' \<and> res ev' = None
           \<and> before (trace (state_of (run R ext n acts w))) ev' ev"
proof -
  from run_hard_first [of R ext n acts w] assms
  obtain k ev' where "handler_event R k d = Some ev'"
    "before (trace (state_of (run R ext n acts w))) ev' ev"
    unfolding hard_first_def by blast
  then show ?thesis using handler_event_res by blast
qed

lemma run_flash_succeed:
  "run ACTIONS succeed 2 [''flash''] ()
     = Done \<lparr>completed_actions = {''flash'', ''all''}, actions = [],
             trace = [Call build_target ''all'' None, Call flash ''flash'' None],
             world = ()\<rparr>"
  by (simp add: run_def init_def run_loop_Cons run_loop_Nil ACTIONS_flash
        ACTIONS_all invoke_def call_def flasher_args_path_flash succeed_def numeral_2_eq_2)

theorem hard_dependency_first_witness:
  "Call flash ''flash'' None \<in> set (trace (state_of (run ACTIONS succeed 2 [''flash''] ())))
   \<and> ACTIONS ''flash'' = Some (Fn flash, [''all''], [])
   \<and> ''all'' \<in> set [''all'']
   \<and> handler_event ACTIONS 1 ''all'' = Some (Call build_target ''all'' None)
   \<and> before (trace (state_of (run ACTIONS succeed 2 [''flash''] ())))
        (Call build_target ''all'' None) (Call flash ''flash'' None)"
proof -
  have 1: "Call flash ''flash'' None \<in> set (trace (state_of (run ACTIONS succeed 2 [''flash''] ())))"
    by (simp add: run_flash_succeed)
  have 2: "ACTIONS (arg (Call flash ''flash'' None)) = Some (Fn flash, [''all''], [])"
    by (simp add: ACTIONS_flash)
  have 3: "''all'' \<in> set [''all'']" by simp
  have e: "handler_event ACTIONS 1 ''all'' = Some (Call build_target ''all'' None)"
    by (simp add: ACTIONS_all)
  from hard_dependency_first [OF 1 2 3] obtain k ev'
    where k: "handler_event ACTIONS k ''all'' = Some ev'"
      and b: "before (trace (state_of (run ACTIONS succeed 2 [''flash''] ()))) ev'
                (Call flash ''flash'' None)" by blast
  from k e have "ev' = Call build_target ''all'' None" by (rule handler_event_unique)
  with b 1 2 3 e show ?thesis by simp
qed

subsection \<open>Failure of a handler\<close>

lemma main_outcome: "post (consistent R) (failed_after R) (main R ext startup n acts w)"
proof (cases "startup w")
  case (Pair r w')
  show ?thesis
  proof (cases r)
    case None
    with Pair run_consistent [of R acts ext n w'] show ?thesis
      by (cases "run R ext n acts w'") (simp_all add: main_def)
  next
    case (Some e)
    with Pair show ?thesis
      by (simp add: main_def consistent_failed consistent_init)
  qed
qed


lemma main_clean_flash_monitor_fail:
  "main ACTIONS (fail_on ''all'') no_startup_error 2 [''clean'', ''flash'', ''monitor''] ()
     = Raised (FatalError ''tool failed'')
         \<lparr>completed_actions = {''clean''}, actions = [''flash'', ''monitor''],
          trace = [Call clean ''clean'' None,
                   Call build_target ''all'' (Some (FatalError ''tool failed''))],
          world = ()\<rparr>"
  by (simp add: main_def no_startup_error_def run_def init_def run_loop_Cons run_loop_Nil
      ACTIONS_clean ACTIONS_flash ACTIONS_all invoke_def call_def fail_on_def numeral_2_eq_2)

lemma main_clean_flash_succeed:
  "main ACTIONS succeed no_startup_error 2 [''clean'', ''flash''] ()
     = Done \<lparr>completed_actions = {''flash'', ''all'', ''clean''}, actions = [],
             trace = [Call clean ''clean'' None, Call build_target ''all'' None,
                      Call flash ''flash'' None], world = ()\<rparr>"
  using run_clean_flash_succeed by (simp add: main_def no_startup_error_def)

text \<open>A world in which the handler called for one given action name raises an exception
  that is not a \<open>FatalError\<close>, as a handler does when the tool it starts is missing.\<close>

definition crash_on :: "string \<Rightarrow> unit ext" where
  "crash_on x f a w = (if a = x then (Some (OtherError ''OSError''), w) else (None, w))"

lemma main_clean_flash_crash:
  "main ACTIONS (crash_on ''all'') no_startup_error 2 [''clean'', ''flash'', ''monitor''] ()
     = Raised (OtherError ''OSError'')
         \<lparr>completed_actions = {''clean''}, actions = [''flash'', ''monitor''],
          trace = [Call clean ''clean'' None,
                   Call build_target ''all'' (Some (OtherError ''OSError''))],
          world = ()\<rparr>"
  by (simp add: main_def no_startup_error_def run_def init_def run_loop_Cons run_loop_Nil
      ACTIONS_clean ACTIONS_flash ACTIONS_all invoke_def call_def crash_on_def numeral_2_eq_2)

text \<open>
  A handler that fails with another exception than \<open>FatalError\<close> ends the run as well, but
  the \<open>except\<close> clause of the script does not catch it: nothing is printed by the script
  and the exit status is 1, not 2.
\<close>

theorem handler_crash_exit_status:
  "main ACTIONS (crash_on ''all'') no_startup_error 2 [''clean'', ''flash'', ''monitor''] ()
     = Raised (OtherError ''OSError'')
         \<lparr>completed_actions = {''clean''}, actions = [''flash'', ''monitor''],
          trace = [Call clean ''clean'' None,
                   Call build_target ''all'' (Some (OtherError ''OSError''))],
          world = ()\<rparr>
   \<and> script ACTIONS (crash_on ''all'') no_startup_error 2 [''clean'', ''flash'', ''monitor''] ()
       = (1, None)"
  by (simp add: main_clean_flash_crash script_def)

text \<open>
  C7 (amended). When the call of a handler raises an exception, \<open>main\<close> ends with that
  exception and the failing call is the last entry of the log: nothing is executed
  after it. If the exception is a \<open>FatalError\<close>, the script prints it and the exit status
  is 2; any other exception is not caught, the script prints nothing and the exit
  status is 1. When \<open>main\<close> returns, the exit status is 0 and no logged call has raised.
\<close>

theorem fail_fast_exit_status:
  "(Call f a (Some e) \<in> set (trace (state_of (main R ext startup n acts w))) \<longrightarrow>
      (\<exists>s pre. main R ext startup n acts w = Raised e s
         \<and> trace s = pre @ [Call f a (Some e)] \<and> (\<forall>ev\<in>set pre. res ev = None))
      \<and> script R ext startup n acts w
          = (case e of FatalError msg \<Rightarrow> (2, Some msg) | _ \<Rightarrow> (1, None)))
   \<and> (main R ext startup n acts w = Done s \<longrightarrow>
        script R ext startup n acts w = (0, None) \<and> (\<forall>ev\<in>set (trace s). res ev = None))"
proof (rule conjI; intro impI)
  assume ev: "Call f a (Some e) \<in> set (trace (state_of (main R ext startup n acts w)))"
  have raised: "\<exists>s pre. main R ext startup n acts w = Raised e s
         \<and> trace s = pre @ [Call f a (Some e)] \<and> (\<forall>ev\<in>set pre. res ev = None)"
  proof (cases "main R ext startup n acts w")
    case (Done s')
    with main_outcome [of R ext startup n acts w] have "consistent R s'" by simp
    from consistent_no_failure [OF this, of "Call f a (Some e)"] ev Done
    show ?thesis by simp
  next
    case (Raised e0 s')
    with main_outcome [of R ext startup n acts w] have "failed_after R e0 s'" by simp
    moreover from ev Raised have "Call f a (Some e) \<in> set (trace s')" by simp
    ultimately have "e = e0 \<and> (\<exists>pre. trace s' = pre @ [Call f a (Some e)]
        \<and> (\<forall>ev\<in>set pre. res ev = None))"
      by (rule failed_after_shape)
    with Raised show ?thesis by blast
  qed
  then obtain s' where "main R ext startup n acts w = Raised e s'" by blast
  then have "script R ext startup n acts w
      = (case e of FatalError msg \<Rightarrow> (2, Some msg) | _ \<Rightarrow> (1, None))"
    by (cases e) (simp_all add: script_def)
  with raised show "(\<exists>s pre. main R ext startup n acts w = Raised e s
         \<and> trace s = pre @ [Call f a (Some e)] \<and> (\<forall>ev\<in>set pre. res ev = None))
      \<and> script R ext startup n acts w
          = (case e of FatalError msg \<Rightarrow> (2, Some msg) | _ \<Rightarrow> (1, None))"
    by blast
next
  assume d: "main R ext startup n acts w = Done s"
  with main_outcome [of R ext startup n acts w] have "consistent R s" by simp
  then have "\<forall>ev\<in>set (trace s). res ev = None" using consistent_no_failure by blast
  moreover from d have "script R ext startup n acts w = (0, None)" by (simp add: script_def)
  ultimately show "script R ext startup n acts w = (0, None)
      \<and> (\<forall>ev\<in>set (trace s). res ev = None)" by blast
qed

theorem fail_fast_exit_status_witness:
  "Call build_target ''all'' (Some (FatalError ''tool failed''))
     \<in> set (trace (state_of (main ACTIONS (fail_on ''all'') no_startup_error 2
                [''clean'', ''flash'', ''monitor''] ())))
   \<and> (\<exists>s pre. main ACTIONS (fail_on ''all'') no_startup_error 2
                [''clean'', ''flash'', ''monitor''] () = Raised (FatalError ''tool failed'') s
         \<and> trace s = pre @ [Call build_target ''all'' (Some (FatalError ''tool failed''))])
   \<and> script ACTIONS (fail_on ''all'') no_startup_error 2 [''clean'', ''flash'', ''monitor''] ()
       = (2, Some ''tool failed'')
   \<and> Call build_target ''all'' (Some (OtherError ''OSError''))
     \<in> set (trace (state_of (main ACTIONS (crash_on ''all'') no_startup_error 2
                [''clean'', ''flash'', ''monitor''] ())))
   \<and> script ACTIONS (crash_on ''all'') no_startup_error 2 [''clean'', ''flash'', ''monitor''] ()
       = (1, None)
   \<and> script ACTIONS succeed no_startup_error 2 [''clean'', ''flash''] () = (0, None)"
proof -
  let ?T = "\<lparr>completed_actions = {''flash'', ''all'', ''clean''}, actions = [],
             trace = [Call clean ''clean'' None, Call build_target ''all'' None,
                      Call flash ''flash'' None], world = ()\<rparr>"
  note f = main_clean_flash_monitor_fail and g = main_clean_flash_succeed
    and c = main_clean_flash_crash
  have 1: "Call build_target ''all'' (Some (FatalError ''tool failed''))
     \<in> set (trace (state_of (main ACTIONS (fail_on ''all'') no_startup_error 2
                [''clean'', ''flash'', ''monitor''] ())))"
    by (simp add: f)
  note t = fail_fast_exit_status [of build_target "''all''" "FatalError ''tool failed''"
      ACTIONS "fail_on ''all''" no_startup_error 2 "[''clean'', ''flash'', ''monitor'']" "()"]
  from t 1 have 2: "\<exists>s pre. main ACTIONS (fail_on ''all'') no_startup_error 2
                [''clean'', ''flash'', ''monitor''] () = Raised (FatalError ''tool failed'') s
         \<and> trace s = pre @ [Call build_target ''all'' (Some (FatalError ''tool failed''))]"
    by blast
  from t 1 have 3: "script ACTIONS (fail_on ''all'') no_startup_error 2
      [''clean'', ''flash'', ''monitor''] () = (2, Some ''tool failed'')"
    by simp
  have 4: "Call build_target ''all'' (Some (OtherError ''OSError''))
     \<in> set (trace (state_of (main ACTIONS (crash_on ''all'') no_startup_error 2
                [''clean'', ''flash'', ''monitor''] ())))"
    by (simp add: c)
  note u = fail_fast_exit_status [of build_target "''all''" "OtherError ''OSError''"
      ACTIONS "crash_on ''all''" no_startup_error 2 "[''clean'', ''flash'', ''monitor'']" "()"]
  from u 4 have 5: "script ACTIONS (crash_on ''all'') no_startup_error 2
      [''clean'', ''flash'', ''monitor''] () = (1, None)"
    by simp
  from fail_fast_exit_status [of _ _ _ ACTIONS succeed no_startup_error 2
      "[''clean'', ''flash'']" "()" ?T] g
  have 6: "script ACTIONS succeed no_startup_error 2 [''clean'', ''flash''] () = (0, None)"
    by blast
  from 1 2 3 4 5 6 show ?thesis by blast
qed

subsection \<open>Executing a completed action\<close>

lemma for_each_skip:
  "(\<And>x. x \<in> set xs \<Longrightarrow> body x s = Done s) \<Longrightarrow> for_each body xs s = Done s"
  by (induction xs) simp_all

text \<open>
  \<open>execute_action\<close> looks at \<open>completed_actions\<close> for the action itself only after the two
  dependency loops. When the action is completed and so are its hard dependencies and
  those of its order-only dependencies that occur in the remaining actions, both loops
  skip every name and the call returns the state unchanged.
\<close>

lemma execute_completed_noop:
  assumes "action \<in> completed_actions st"
    and "R action = Some (func, dependencies, order_dependencies)"
    and "set dependencies \<subseteq> completed_actions st"
    and "\<forall>dep\<in>set order_dependencies. dep \<in> set remaining \<longrightarrow> dep \<in> completed_actions st"
  shows "execute_action R ext (Suc n) action remaining st = Done st"
proof -
  have 1: "for_each (\<lambda>dep s. if dep \<notin> completed_actions s
                        then execute_action R ext n dep remaining s else Done s)
             dependencies st = Done st"
    by (rule for_each_skip) (use assms(3) in auto)
  have 2: "for_each (\<lambda>dep s. if dep \<in> set remaining \<and> dep \<notin> completed_actions s
                        then execute_action R ext n dep remaining s else Done s)
             order_dependencies st = Done st"
    by (rule for_each_skip) (use assms(4) in auto)
  show ?thesis
    using assms(1,2) by (simp add: 1 2 completed_absorb)
qed

text \<open>
  The order of the tests shows in a state where \<open>flash\<close> is completed and its hard
  dependency \<open>all\<close> is not: there the call for \<open>flash\<close> invokes the handler of \<open>all\<close>. No
  run reaches such a state, as the invariant below shows.
\<close>

lemma completed_action_runs_dependency:
  "''flash'' \<in> completed_actions
       \<lparr>completed_actions = {''flash''}, actions = [], trace = [], world = ()\<rparr>
   \<and> execute_action ACTIONS succeed 2 ''flash'' []
       \<lparr>completed_actions = {''flash''}, actions = [], trace = [], world = ()\<rparr>
     = Done \<lparr>completed_actions = {''flash'', ''all''}, actions = [],
             trace = [Call build_target ''all'' None], world = ()\<rparr>"
  by (simp add: ACTIONS_flash ACTIONS_all invoke_def call_def succeed_def numeral_2_eq_2
      insert_commute)

text \<open>
  \<open>settled R rem s\<close>: the state is consistent, and every order-only dependency of a
  completed action that occurs in the remaining actions \<open>rem\<close> is completed.
\<close>

definition settled :: "registry \<Rightarrow> string list \<Rightarrow> 'w state \<Rightarrow> bool" where
  "settled R rem s \<longleftrightarrow>
     consistent R s
     \<and> (\<forall>a\<in>completed_actions s. \<forall>func hs os. R a = Some (func, hs, os) \<longrightarrow>
          (\<forall>d\<in>set os. d \<in> set rem \<longrightarrow> d \<in> completed_actions s))"

text \<open>
  The states in which a run calls \<open>execute_action\<close>, with the remaining actions of the
  call: the initial state, at the first call of the main loop; the state left by any
  call with the same remaining actions that has returned, which is where the next
  call of a dependency loop, at any depth, or the call for an alias target starts;
  and the state at the next call of the main loop, after the first name was popped.
\<close>

inductive reached :: "registry \<Rightarrow> 'w ext \<Rightarrow> string list \<Rightarrow> 'w state \<Rightarrow> bool"
  for R :: registry and ext :: "'w ext" where
  start: "reached R ext rest (init (a # rest) w)"
| call: "reached R ext rem s \<Longrightarrow> execute_action R ext n a rem s = Done s'
         \<Longrightarrow> reached R ext rem s'"
| pop: "reached R ext (b # rest) s \<Longrightarrow> reached R ext rest (s\<lparr>actions := b # rest\<rparr>)"

lemma settled_add:
  assumes s: "settled R rem s" and c: "consistent R s'"
    and Ra: "R a = Some (func, hs, os)"
    and os: "\<forall>d\<in>set os. d \<in> set rem \<longrightarrow> d \<in> completed_actions s"
    and comp: "completed_actions s' = insert a (completed_actions s)"
  shows "settled R rem s'"
  unfolding settled_def
proof (intro conjI ballI allI impI)
  show "consistent R s'" by (rule c)
next
  fix x func' hs' os' d
  assume x: "x \<in> completed_actions s'" and Rx: "R x = Some (func', hs', os')"
    and d: "d \<in> set os'" and dr: "d \<in> set rem"
  from x comp consider "x = a" | "x \<in> completed_actions s" by auto
  then have "d \<in> completed_actions s"
  proof cases
    case 1
    with Rx Ra have "os' = os" by simp
    with os d dr show ?thesis by blast
  next
    case 2
    with s Rx d dr show ?thesis unfolding settled_def by blast
  qed
  with comp show "d \<in> completed_actions s'" by simp
qed

lemma execute_action_settled:
  assumes "settled R rem st"
  shows "post (settled R rem) (\<lambda>e s. True) (execute_action R ext n a rem st)"
proof (rule execute_action_rule [where S = UNIV and P = "settled R rem"])
  show "closed_under R rem UNIV" by simp
  show "a \<in> UNIV" by simp
  show "settled R rem st" by (rule assms)
next
  fix f a hs os and s :: "'a state"
  assume P: "settled R rem s" and Ra: "R a = Some (Fn f, hs, os)"
    and a: "a \<notin> completed_actions s" and hs: "set hs \<subseteq> completed_actions s"
    and os: "\<forall>d\<in>set os. d \<in> set rem \<longrightarrow> d \<in> completed_actions s"
  from P have c: "consistent R s" by (simp add: settled_def)
  have 1: "post (\<lambda>s'. consistent R (s'\<lparr>completed_actions := insert a (completed_actions s')\<rparr>))
           (failed_after R) (invoke ext f a s)"
    using c Ra a hs by (rule consistent_invoke)
  show "post (\<lambda>s'. settled R rem (s'\<lparr>completed_actions := insert a (completed_actions s')\<rparr>))
          (\<lambda>e s. True) (invoke ext f a s)"
  proof (cases "invoke ext f a s")
    case (Done s')
    from invoke_extends [of s ext f a] Done
    have "completed_actions s \<subseteq> completed_actions s'" by (simp add: extends_def)
    moreover have "completed_actions s' \<subseteq> completed_actions s"
      using Done by (auto simp: invoke_def split: prod.splits option.splits)
    ultimately have eq: "completed_actions s' = completed_actions s" by blast
    have "settled R rem (s'\<lparr>completed_actions := insert a (completed_actions s')\<rparr>)"
      using P _ Ra os
    proof (rule settled_add)
      show "consistent R (s'\<lparr>completed_actions := insert a (completed_actions s')\<rparr>)"
        using 1 Done by simp
      show "completed_actions (s'\<lparr>completed_actions := insert a (completed_actions s')\<rparr>)
          = insert a (completed_actions s)" by (simp add: eq)
    qed
    with Done show ?thesis by simp
  next
    case (Raised e s')
    then show ?thesis by simp
  qed
next
  fix a b hs os and s :: "'a state"
  assume P: "settled R rem s" and Ra: "R a = Some (Str b, hs, os)"
    and b: "b \<in> completed_actions s" and hs: "set hs \<subseteq> completed_actions s"
    and os: "\<forall>d\<in>set os. d \<in> set rem \<longrightarrow> d \<in> completed_actions s"
  from P have c: "consistent R s" by (simp add: settled_def)
  show "settled R rem (s\<lparr>completed_actions := insert a (completed_actions s)\<rparr>)"
    using P _ Ra os
  proof (rule settled_add)
    show "consistent R (s\<lparr>completed_actions := insert a (completed_actions s)\<rparr>)"
      using c Ra b hs by (rule consistent_alias)
    show "completed_actions (s\<lparr>completed_actions := insert a (completed_actions s)\<rparr>)
        = insert a (completed_actions s)" by simp
  qed
qed simp

lemma reached_settled: "reached R ext rem s \<Longrightarrow> settled R rem s"
proof (induction rule: reached.induct)
  case (start rest a w)
  show ?case by (simp add: settled_def consistent_init) (simp add: init_def)
next
  case (call rem s n a s')
  from execute_action_settled [OF call.IH, of ext n a] call.hyps(2) show ?case by simp
next
  case (pop b rest s)
  then show ?case by (auto simp: settled_def)
qed

text \<open>
  C5. In every state in which a run calls \<open>execute_action\<close>, with the remaining actions
  of that call and at least one frame left: the call for an action that is already
  completed returns the state as it is. No handler is invoked, for the action or for
  a dependency, and \<open>completed_actions\<close> is unchanged.
\<close>

theorem completed_action_noop:
  assumes "reached R ext remaining st" and "action \<in> completed_actions st"
  shows "execute_action R ext (Suc n) action remaining st = Done st"
proof -
  from assms(1) have s: "settled R remaining st" by (rule reached_settled)
  then have "completed_sound R st" by (simp add: settled_def consistent_def)
  from completed_soundD(1) [OF this assms(2)] obtain func hs os
    where Ra: "R action = Some (func, hs, os)" and hs: "set hs \<subseteq> completed_actions st"
    by blast
  from s assms(2) Ra
  have os: "\<forall>dep\<in>set os. dep \<in> set remaining \<longrightarrow> dep \<in> completed_actions st"
    unfolding settled_def by blast
  from assms(2) Ra hs os show ?thesis by (rule execute_completed_noop)
qed

lemma execute_flash_first:
  "execute_action ACTIONS succeed 2 ''flash'' [''flash''] (init [''flash'', ''flash''] ())
     = Done \<lparr>completed_actions = {''flash'', ''all''}, actions = [''flash'', ''flash''],
        trace = [Call build_target ''all'' None, Call flash ''flash'' None], world = ()\<rparr>"
  by (simp add: init_def ACTIONS_flash ACTIONS_all invoke_def call_def
      flasher_args_path_flash succeed_def numeral_2_eq_2)

theorem completed_action_noop_witness:
  "reached ACTIONS succeed []
       \<lparr>completed_actions = {''flash'', ''all''}, actions = [''flash''],
        trace = [Call build_target ''all'' None, Call flash ''flash'' None], world = ()\<rparr>
   \<and> ''flash'' \<in> completed_actions
       \<lparr>completed_actions = {''flash'', ''all''}, actions = [''flash''],
        trace = [Call build_target ''all'' None, Call flash ''flash'' None], world = ()\<rparr>
   \<and> execute_action ACTIONS succeed (Suc 0) ''flash'' []
       \<lparr>completed_actions = {''flash'', ''all''}, actions = [''flash''],
        trace = [Call build_target ''all'' None, Call flash ''flash'' None], world = ()\<rparr>
     = Done \<lparr>completed_actions = {''flash'', ''all''}, actions = [''flash''],
        trace = [Call build_target ''all'' None, Call flash ''flash'' None], world = ()\<rparr>"
proof -
  let ?S1 = "\<lparr>completed_actions = {''flash'', ''all''}, actions = [''flash'', ''flash''],
        trace = [Call build_target ''all'' None, Call flash ''flash'' None], world = ()\<rparr>"
  let ?S2 = "\<lparr>completed_actions = {''flash'', ''all''}, actions = [''flash''],
        trace = [Call build_target ''all'' None, Call flash ''flash'' None], world = ()\<rparr>"
  have "reached ACTIONS succeed [''flash''] (init [''flash'', ''flash''] ())"
    by (rule reached.start)
  then have "reached ACTIONS succeed [''flash''] ?S1"
    using execute_flash_first by (rule reached.call)
  then have "reached ACTIONS succeed [] (?S1\<lparr>actions := [''flash'']\<rparr>)"
    by (rule reached.pop)
  then have r: "reached ACTIONS succeed [] ?S2" by simp
  have m: "''flash'' \<in> completed_actions ?S2" by simp
  from completed_action_noop [OF r m, of 0] r m show ?thesis by blast
qed

subsection \<open>Cycles of aliases\<close>

text \<open>A table with one handler action and two aliases of each other.\<close>

definition cyclic_aliases :: registry where
  "cyclic_aliases = map_of
     [ (''a'', (Fn clean, [], [])),
       (''x'', (Str ''y'', [], [])),
       (''y'', (Str ''x'', [], [])) ]"

lemma alias_cycle_overflows:
  assumes S: "\<forall>x\<in>S. \<exists>y\<in>S. R x = Some (Str y, [], [])"
  shows "a \<in> S \<Longrightarrow> S \<inter> completed_actions st = {}
         \<Longrightarrow> execute_action R ext n a rem st = Raised RecursionError st"
proof (induction n arbitrary: a)
  case 0
  then show ?case by simp
next
  case (Suc n)
  from S Suc.prems(1) obtain y where y: "y \<in> S" and Ra: "R a = Some (Str y, [], [])" by blast
  from S y obtain z where "R y = Some (Str z, [], [])" by blast
  then have Ry: "R y \<noteq> None" by simp
  from Suc.prems have a: "a \<notin> completed_actions st" by blast
  have "execute_action R ext n y rem st = Raised RecursionError st"
    using y Suc.prems(2) by (rule Suc.IH)
  then show ?case using Ra Ry a by simp
qed

text \<open>
  C4 (amended). The script does not validate the table. When the requested action
  lies on a cycle of aliases without dependencies, \<open>main\<close> passes startup and fails at
  run time, whatever the recursion limit, with the interpreter's recursion error;
  this is not a \<open>FatalError\<close>, so the exit status is 1.
\<close>

theorem alias_cycle_exhausts_recursion:
  assumes "\<forall>x\<in>S. \<exists>y\<in>S. R x = Some (Str y, [], [])" and "a \<in> S"
    and "startup w = (None, w')"
  shows "main R ext startup n (a # rest) w = Raised RecursionError (init (a # rest) w')
         \<and> script R ext startup n (a # rest) w = (1, None)"
proof -
  have "execute_action R ext n a rest (init (a # rest) w')
          = Raised RecursionError (init (a # rest) w')"
    using assms(1,2) by (rule alias_cycle_overflows) (simp add: init_def)
  moreover have "actions (init (a # rest) w') = a # rest" by (simp add: init_def)
  ultimately have "run R ext n (a # rest) w' = Raised RecursionError (init (a # rest) w')"
    by (simp add: run_def run_loop_Cons)
  with assms(3) have "main R ext startup n (a # rest) w
      = Raised RecursionError (init (a # rest) w')"
    by (simp add: main_def)
  then show ?thesis by (simp add: script_def)
qed

lemma cyclic_aliases_cycle:
  "\<forall>x\<in>{''x'', ''y''}. \<exists>y\<in>{''x'', ''y''}. cyclic_aliases x = Some (Str y, [], [])"
  by (simp add: cyclic_aliases_def)

theorem alias_cycle_exhausts_recursion_witness:
  "''x'' \<in> {''x'', ''y''}
   \<and> no_startup_error () = (None, ())
   \<and> main cyclic_aliases succeed no_startup_error 1000 [''x''] ()
       = Raised RecursionError (init [''x''] ())
   \<and> script cyclic_aliases succeed no_startup_error 1000 [''x''] () = (1, None)"
proof -
  have 2: "''x'' \<in> {''x'', ''y''}" by simp
  have 3: "no_startup_error () = (None, ())" by (simp add: no_startup_error_def)
  note t = alias_cycle_exhausts_recursion [where S = "{''x'', ''y''}" and R = cyclic_aliases
      and a = "''x''" and startup = no_startup_error and w = "()" and w' = "()"
      and ext = succeed and n = 1000 and rest = "[]"]
  from t [OF cyclic_aliases_cycle 2 3] 2 3
  show ?thesis by blast
qed

text \<open>
  With the cyclic table and the request \<open>a x\<close>, the handler of \<open>a\<close> has already run when
  the recursion limit is hit: nothing rejects the table before execution begins.
\<close>

lemma cyclic_aliases_after_a:
  "main cyclic_aliases succeed no_startup_error (Suc n) [''a'', ''x''] ()
     = Raised RecursionError
         \<lparr>completed_actions = {''a''}, actions = [''x''],
          trace = [Call clean ''a'' None], world = ()\<rparr>"
proof -
  let ?s = "\<lparr>completed_actions = {''a''}, actions = [''x''],
          trace = [Call clean ''a'' None], world = ()\<rparr>"
  have 1: "execute_action cyclic_aliases succeed (Suc n) ''a'' [''x''] (init [''a'', ''x''] ())
      = Done (?s\<lparr>actions := [''a'', ''x'']\<rparr>)"
    by (simp add: cyclic_aliases_def init_def invoke_def call_def succeed_def)
  have 2: "execute_action cyclic_aliases succeed (Suc n) ''x'' [] ?s = Raised RecursionError ?s"
    using cyclic_aliases_cycle by (rule alias_cycle_overflows) simp_all
  have a1: "actions (init [''a'', ''x''] ()) = ''a'' # [''x'']" by (simp add: init_def)
  have a2: "actions ?s = ''x'' # []" by simp
  have "run_loop cyclic_aliases succeed (Suc n) (init [''a'', ''x''] ())
      = run_loop cyclic_aliases succeed (Suc n) ?s"
    unfolding run_loop_Cons [OF a1] 1 by simp
  also have "\<dots> = Raised RecursionError ?s"
    unfolding run_loop_Cons [OF a2] 2 by simp
  finally show ?thesis
    by (simp add: main_def no_startup_error_def run_def)
qed

theorem alias_cycle_not_rejected:
  "main cyclic_aliases succeed no_startup_error 1000 [''a'', ''x''] ()
     = Raised RecursionError
         \<lparr>completed_actions = {''a''}, actions = [''x''],
          trace = [Call clean ''a'' None], world = ()\<rparr>
   \<and> script cyclic_aliases succeed no_startup_error 1000 [''a'', ''x''] () = (1, None)"
proof -
  have n: "Suc 999 = 1000" by simp
  note m = cyclic_aliases_after_a [of 999, unfolded n]
  show ?thesis by (simp add: m script_def)
qed

text \<open>The shipped table has no alias cycle: the target of its alias is a handler action.\<close>

lemma ACTIONS_alias_target_is_handler:
  assumes "ACTIONS a = Some (Str b, hs, os)"
  shows "\<exists>f hs' os'. ACTIONS b = Some (Fn f, hs', os')"
proof -
  from assms have "(a, (Str b, hs, os)) \<in> set ACTIONS_list"
    unfolding ACTIONS_def by (rule map_of_SomeD)
  then have "b = ''all''" by (auto simp: ACTIONS_list_def)
  then show ?thesis by (simp add: ACTIONS_all)
qed

subsection \<open>Aliases\<close>

text \<open>The outcome of a computation that hit the recursion limit.\<close>

fun overflowed :: "'s outcome \<Rightarrow> bool" where
  "overflowed (Raised RecursionError s) = True"
| "overflowed out = False"

text \<open>\<open>unless_overflowed r r'\<close>: \<open>r'\<close> is \<open>r\<close>, unless \<open>r\<close> hit the recursion limit.\<close>

definition unless_overflowed :: "'s outcome \<Rightarrow> 's outcome \<Rightarrow> bool" where
  "unless_overflowed r r' \<longleftrightarrow> (\<not> overflowed r \<longrightarrow> r' = r)"

lemma unless_overflowed_refl [simp]: "unless_overflowed r r"
  by (simp add: unless_overflowed_def)













lemma run_all_succeed:
  "run ACTIONS succeed 2 [''all''] ()
     = Done \<lparr>completed_actions = {''all''}, actions = [],
             trace = [Call build_target ''all'' None], world = ()\<rparr>"
  by (simp add: run_def init_def run_loop_Cons run_loop_Nil
        ACTIONS_all invoke_def call_def succeed_def numeral_2_eq_2)


subsection \<open>Order-only dependencies\<close>





text \<open>
  For a fixed list of remaining actions: for every logged call, the handler invocation
  of each order-only dependency of its action that occurs in the list is logged
  before it.
\<close>

definition order_first :: "registry \<Rightarrow> string list \<Rightarrow> 'w state \<Rightarrow> bool" where
  "order_first R rem s \<longleftrightarrow>
     (\<forall>ev\<in>set (trace s). \<forall>func hs os. R (arg ev) = Some (func, hs, os) \<longrightarrow>
        (\<forall>d\<in>set os. d \<in> set rem \<longrightarrow>
           (\<exists>k ev'. handler_event R k d = Some ev' \<and> before (trace s) ev' ev)))"


lemma order_first_same_trace:
  "trace s' = trace s \<Longrightarrow> order_first R rem s' = order_first R rem s"
  by (simp add: order_first_def)















lemma ACTIONS_fullclean: "ACTIONS ''fullclean'' = Some (Fn fullclean, [], [])"
  by (simp add: ACTIONS_def ACTIONS_list_def)

lemma ACTIONS_menuconfig: "ACTIONS ''menuconfig'' = Some (Fn build_target, [], [])"
  by (simp add: ACTIONS_def ACTIONS_list_def)




lemma ACTIONS_bootloader: "ACTIONS ''bootloader'' = Some (Fn build_target, [], [])"
  by (simp add: ACTIONS_def ACTIONS_list_def)

lemma ACTIONS_bootloader_flash:
  "ACTIONS ''bootloader-flash'' = Some (Fn flash, [''bootloader''], [])"
  by (simp add: ACTIONS_def ACTIONS_list_def)

lemma ACTIONS_app: "ACTIONS ''app'' = Some (Fn build_target, [], [])"
  by (simp add: ACTIONS_def ACTIONS_list_def)

lemma ACTIONS_app_flash: "ACTIONS ''app-flash'' = Some (Fn flash, [], [''app''])"
  by (simp add: ACTIONS_def ACTIONS_list_def)

lemma ACTIONS_partition_table: "ACTIONS ''partition_table'' = Some (Fn build_target, [], [])"
  by (simp add: ACTIONS_def ACTIONS_list_def)

lemma ACTIONS_partition_table_flash:
  "ACTIONS ''partition_table-flash'' = Some (Fn flash, [''partition_table''], [])"
  by (simp add: ACTIONS_def ACTIONS_list_def)




subsection \<open>Runs that return\<close>

text \<open>
  \<open>ranked R rk\<close>: every dependency and every alias target named in the table is an
  action of the table, of smaller rank than the action that names it. A table has
  such a rank exactly when it has no cycle and no dangling name.
\<close>

definition ranked :: "registry \<Rightarrow> (string \<Rightarrow> nat) \<Rightarrow> bool" where
  "ranked R rk \<longleftrightarrow>
     (\<forall>a func hs os. R a = Some (func, hs, os) \<longrightarrow>
        (\<forall>d\<in>set hs \<union> set os. R d \<noteq> None \<and> rk d < rk a)
        \<and> (case func of Str b \<Rightarrow> R b \<noteq> None \<and> rk b < rk a | Fn f \<Rightarrow> True))"

text \<open>\<open>handlers_succeed R ext w\<close>: no handler call the table can cause raises.\<close>

definition handlers_succeed :: "registry \<Rightarrow> 'w ext \<Rightarrow> bool" where
  "handlers_succeed R ext \<longleftrightarrow>
     (\<forall>a f hs os w. R a = Some (Fn f, hs, os) \<longrightarrow> fst (call ext f a w) = None)"

lemma for_each_returns:
  assumes "\<And>x s. x \<in> set xs \<Longrightarrow> \<exists>s'. body x s = Done s'"
  shows "\<exists>s'. for_each body xs st = Done s'"
  using assms
proof (induction xs arbitrary: st)
  case Nil
  then show ?case by simp
next
  case (Cons x xs)
  from Cons.prems [of x st] obtain s1 where s1: "body x st = Done s1" by auto
  have "\<exists>s'. for_each body xs s1 = Done s'"
    by (rule Cons.IH) (simp add: Cons.prems)
  with s1 show ?case by simp
qed

lemma invoke_returns:
  "fst (call ext f a (world s)) = None \<Longrightarrow> \<exists>s'. invoke ext f a s = Done s'"
  by (cases "call ext f a (world s)") (simp add: invoke_def)

lemma execute_action_returns:
  assumes rk: "ranked R rk" and ok: "handlers_succeed R ext"
  shows "R a \<noteq> None \<Longrightarrow> rk a < n \<Longrightarrow> \<exists>s. execute_action R ext n a rem st = Done s"
proof (induction n arbitrary: a st)
  case 0
  then show ?case by simp
next
  case (Suc n)
  from Suc.prems(1) obtain func hs os where Ra: "R a = Some (func, hs, os)"
    by (cases "R a") auto
  from rk Ra have deps: "\<And>d. d \<in> set hs \<union> set os \<Longrightarrow> R d \<noteq> None \<and> rk d < rk a"
    and tgt: "\<And>b. func = Str b \<Longrightarrow> R b \<noteq> None \<and> rk b < rk a"
    unfolding ranked_def by (fastforce split: operation.splits)+
  have rec: "\<exists>s'. execute_action R ext n d rem s = Done s'"
    if "R d \<noteq> None" "rk d < rk a" for d s
    using that Suc.prems(2) by (intro Suc.IH) auto
  have hard: "\<exists>s1. for_each (\<lambda>dep s. if dep \<notin> completed_actions s
                      then execute_action R ext n dep rem s else Done s) hs st = Done s1"
    by (rule for_each_returns) (use deps rec in auto)
  have order: "\<exists>s2. for_each (\<lambda>dep s. if dep \<in> set rem \<and> dep \<notin> completed_actions s
                      then execute_action R ext n dep rem s else Done s) os s1 = Done s2" for s1
    by (rule for_each_returns) (use deps rec in auto)
  have final: "\<exists>s3. (if a \<in> completed_actions s2 then Done s2
           else (case func of
                   Str target \<Rightarrow> if R target \<noteq> None then execute_action R ext n target rem s2
                                 else Raised TypeError s2
                 | Fn f \<Rightarrow> invoke ext f a s2)) = Done s3" for s2
  proof (cases func)
    case (Fn f)
    with ok Ra have "fst (call ext f a (world s2)) = None"
      unfolding handlers_succeed_def by blast
    from invoke_returns [OF this] Fn show ?thesis by auto
  next
    case (Str b)
    with tgt rec [of b s2] show ?thesis by auto
  qed
  from hard obtain s1 where 1: "for_each (\<lambda>dep s. if dep \<notin> completed_actions s
                      then execute_action R ext n dep rem s else Done s) hs st = Done s1" ..
  from order obtain s2 where 2: "for_each (\<lambda>dep s. if dep \<in> set rem \<and> dep \<notin> completed_actions s
                      then execute_action R ext n dep rem s else Done s) os s1 = Done s2" ..
  from final obtain s3 where 3: "(if a \<in> completed_actions s2 then Done s2
           else (case func of
                   Str target \<Rightarrow> if R target \<noteq> None then execute_action R ext n target rem s2
                                 else Raised TypeError s2
                 | Fn f \<Rightarrow> invoke ext f a s2)) = Done s3" ..
  show ?case
    unfolding execute_action.simps Ra option.case prod.case 1 2 3 and_then.simps by simp
qed

lemma run_loop_returns:
  assumes rk: "ranked R rk" and ok: "handlers_succeed R ext"
  shows "\<forall>a\<in>set (actions st). R a \<noteq> None \<and> rk a < n \<Longrightarrow> \<exists>s. run_loop R ext n st = Done s"
proof (induction "actions st" arbitrary: st)
  case Nil
  then show ?case by (simp add: run_loop_Nil)
next
  case (Cons a rest)
  from Cons.hyps(2) have acts: "actions st = a # rest" by simp
  with Cons.prems have "R a \<noteq> None" "rk a < n" by simp_all
  with rk ok obtain s where s: "execute_action R ext n a rest st = Done s"
    using execute_action_returns by blast
  have "\<exists>s'. run_loop R ext n (s\<lparr>actions := rest\<rparr>) = Done s'"
    by (rule Cons.hyps(1)) (use Cons.prems acts in simp_all)
  then show ?case by (simp add: run_loop_Cons [OF acts] s)
qed

lemma run_returns:
  assumes "ranked R rk" and "handlers_succeed R ext"
    and "\<forall>a\<in>set acts. R a \<noteq> None \<and> rk a < n"
  shows "\<exists>s. run R ext n acts w = Done s"
  unfolding run_def using assms(1,2)
  by (rule run_loop_returns) (use assms(3) in \<open>simp add: init_def\<close>)

text \<open>A rank for the shipped table: the longest chain of names below an action.\<close>

definition ACTIONS_rank :: "string \<Rightarrow> nat" where
  "ACTIONS_rank a =
     (if a = ''monitor'' then 4
      else if a \<in> {''flash'', ''build''} then 3
      else if a = ''all'' then 2
      else if a \<in> {''clean'', ''size'', ''size-components'', ''size-files'',
                    ''bootloader-flash'', ''app-flash'', ''partition_table-flash''} then 1
      else 0)"

lemma ACTIONS_rank_le: "ACTIONS_rank a \<le> 4"
  by (simp add: ACTIONS_rank_def)

lemma ranked_map_of:
  assumes "\<forall>(a, func, hs, os)\<in>set xs.
      (\<forall>d\<in>set hs \<union> set os. map_of xs d \<noteq> None \<and> rk d < rk a)
      \<and> (case func of Str b \<Rightarrow> map_of xs b \<noteq> None \<and> rk b < rk a | Fn f \<Rightarrow> True)"
  shows "ranked (map_of xs) rk"
  unfolding ranked_def
proof (intro allI impI)
  fix a func hs os
  assume "map_of xs a = Some (func, hs, os)"
  then have "(a, func, hs, os) \<in> set xs" by (rule map_of_SomeD)
  from bspec [OF assms this]
  show "(\<forall>d\<in>set hs \<union> set os. map_of xs d \<noteq> None \<and> rk d < rk a)
      \<and> (case func of Str b \<Rightarrow> map_of xs b \<noteq> None \<and> rk b < rk a | Fn f \<Rightarrow> True)"
    by simp
qed

lemma ACTIONS_ranked: "ranked ACTIONS ACTIONS_rank"
proof -
  have "\<forall>(a, func, hs, os)\<in>set ACTIONS_list.
      (\<forall>d\<in>set hs \<union> set os. ACTIONS d \<noteq> None \<and> ACTIONS_rank d < ACTIONS_rank a)
      \<and> (case func of Str b \<Rightarrow> ACTIONS b \<noteq> None \<and> ACTIONS_rank b < ACTIONS_rank a
          | Fn f \<Rightarrow> True)"
    by (simp add: ACTIONS_list_def ACTIONS_rank_def ACTIONS_all ACTIONS_clean ACTIONS_fullclean
        ACTIONS_menuconfig ACTIONS_app ACTIONS_bootloader ACTIONS_partition_table
        ACTIONS_flash ACTIONS_partition_table_flash ACTIONS_bootloader_flash ACTIONS_app_flash)
  then show ?thesis unfolding ACTIONS_def by (rule ranked_map_of)
qed

lemma flash_action_argfile:
  assumes "ACTIONS a = Some (Fn flash, hs, os)"
  shows "flasher_args_path a \<noteq> None"
proof -
  from assms have "(a, (Fn flash, hs, os)) \<in> set ACTIONS_list"
    unfolding ACTIONS_def by (rule map_of_SomeD)
  then have "a \<in> {''bootloader-flash'', ''app-flash'', ''partition_table-flash'', ''flash''}"
    by (auto simp: ACTIONS_list_def)
  then show ?thesis by (auto simp: flasher_args_path_def)
qed

lemma ACTIONS_handlers_succeed:
  assumes "\<forall>f a w. fst (ext f a w) = None"
  shows "handlers_succeed ACTIONS ext"
  unfolding handlers_succeed_def
proof (intro allI impI)
  fix a f hs os w
  assume "ACTIONS a = Some (Fn f, hs, os)"
  then have "f = flash \<longrightarrow> flasher_args_path a \<noteq> None"
    using flash_action_argfile by blast
  then have "call ext f a w = ext f a w" by (auto simp: call_def)
  with assms show "fst (call ext f a w) = None" by simp
qed

text \<open>
  With the shipped table, a recursion limit of five frames is enough for any request:
  when no handler raises, the run returns.
\<close>

lemma shipped_run_returns:
  assumes "\<forall>a\<in>set acts. ACTIONS a \<noteq> None" and "5 \<le> n" and "\<forall>f a w. fst (ext f a w) = None"
  shows "\<exists>s. run ACTIONS ext n acts w = Done s"
proof (rule run_returns [OF ACTIONS_ranked ACTIONS_handlers_succeed [OF assms(3)]])
  show "\<forall>a\<in>set acts. ACTIONS a \<noteq> None \<and> ACTIONS_rank a < n"
  proof
    fix a assume "a \<in> set acts"
    with assms(1) have "ACTIONS a \<noteq> None" by simp
    moreover have "ACTIONS_rank a < n" using ACTIONS_rank_le [of a] assms(2) by simp
    ultimately show "ACTIONS a \<noteq> None \<and> ACTIONS_rank a < n" ..
  qed
qed

subsection \<open>The scenario \<open>clean flash\<close>\<close>

text \<open>
  C8. With the shipped table, a run of \<open>[clean, flash]\<close> that finishes has invoked
  exactly three handlers, in this order: \<open>clean\<close> for \<open>clean\<close>, \<open>build_target\<close> for
  \<open>all\<close> (the hard dependency of \<open>flash\<close>; its order-only dependency on \<open>clean\<close> is
  skipped), and \<open>flash\<close> for \<open>flash\<close>. The run does finish when no handler raises and
  two nested calls of \<open>execute_action\<close> are allowed.
\<close>

theorem clean_flash_order:
  "(run ACTIONS ext n [''clean'', ''flash''] w = Done st \<longrightarrow>
      trace st = [Call clean ''clean'' None, Call build_target ''all'' None,
                  Call flash ''flash'' None]
      \<and> completed_actions st = {''clean'', ''all'', ''flash''})
   \<and> (2 \<le> n \<longrightarrow> (\<forall>f a w. fst (ext f a w) = None) \<longrightarrow>
        (\<exists>s. run ACTIONS ext n [''clean'', ''flash''] w = Done s))"
proof (rule conjI; intro impI)
  assume d: "run ACTIONS ext n [''clean'', ''flash''] w = Done st"
  have "\<exists>m. n = Suc (Suc m)"
  proof (cases n)
    case 0
    with d show ?thesis by (simp add: run_def init_def run_loop_Cons)
  next
    case (Suc k)
    show ?thesis
    proof (cases k)
      case 0
      with Suc d show ?thesis
        by (simp add: run_def init_def run_loop_Cons run_loop_Nil ACTIONS_clean ACTIONS_flash
            invoke_def call_def split: prod.splits option.splits)
    next
      case (Suc m)
      with \<open>n = Suc k\<close> show ?thesis by simp
    qed
  qed
  then obtain m where "n = Suc (Suc m)" by blast
  with d show "trace st = [Call clean ''clean'' None, Call build_target ''all'' None,
                  Call flash ''flash'' None]
      \<and> completed_actions st = {''clean'', ''all'', ''flash''}"
    by (auto simp add: run_def init_def run_loop_Cons run_loop_Nil ACTIONS_clean ACTIONS_flash
        ACTIONS_all invoke_def call_def flasher_args_path_flash
        split: prod.splits option.splits)
next
  assume n: "2 \<le> n" and ok: "\<forall>f a w. fst (ext f a w) = None"
  from n have m: "n = Suc (Suc (n - 2))" by simp
  have ex: "\<exists>w'. ext f a w = (None, w')" for f a w
  proof (cases "ext f a w")
    case (Pair r w')
    from ok have "fst (ext f a w) = None" by blast
    with Pair show ?thesis by simp
  qed
  from ex obtain w1 where 1: "ext clean ''clean'' w = (None, w1)" by blast
  from ex obtain w2 where 2: "ext build_target ''all'' w1 = (None, w2)" by blast
  from ex obtain w3 where 3: "ext flash ''flash'' w2 = (None, w3)" by blast
  have "\<exists>s. run ACTIONS ext (Suc (Suc (n - 2))) [''clean'', ''flash''] w = Done s"
    by (simp add: run_def init_def run_loop_Cons run_loop_Nil ACTIONS_clean ACTIONS_flash
        ACTIONS_all invoke_def call_def flasher_args_path_flash 1 2 3)
  with m show "\<exists>s. run ACTIONS ext n [''clean'', ''flash''] w = Done s" by simp
qed

theorem clean_flash_order_witness:
  "run ACTIONS succeed 2 [''clean'', ''flash''] ()
     = Done \<lparr>completed_actions = {''flash'', ''all'', ''clean''}, actions = [],
             trace = [Call clean ''clean'' None, Call build_target ''all'' None,
                      Call flash ''flash'' None], world = ()\<rparr>
   \<and> trace \<lparr>completed_actions = {''flash'', ''all'', ''clean''}, actions = [],
             trace = [Call clean ''clean'' None, Call build_target ''all'' None,
                      Call flash ''flash'' None], world = ()\<rparr>
     = [Call clean ''clean'' None, Call build_target ''all'' None, Call flash ''flash'' None]
   \<and> (2::nat) \<le> 2
   \<and> (\<exists>s. run ACTIONS succeed 2 [''clean'', ''flash''] () = Done s)"
proof -
  let ?S = "\<lparr>completed_actions = {''flash'', ''all'', ''clean''}, actions = [],
             trace = [Call clean ''clean'' None, Call build_target ''all'' None,
                      Call flash ''flash'' None], world = ()\<rparr>"
  note h = run_clean_flash_succeed
  note t = clean_flash_order [of succeed 2 "()" ?S]
  have ok: "\<forall>f a w. fst (succeed f a w) = None" by (simp add: succeed_def)
  from t h have 1: "trace ?S
     = [Call clean ''clean'' None, Call build_target ''all'' None, Call flash ''flash'' None]"
    by blast
  have "(2::nat) \<le> 2" by simp
  with t ok have 2: "\<exists>s. run ACTIONS succeed 2 [''clean'', ''flash''] () = Done s"
    by blast
  from h 1 2 show ?thesis by simp
qed

end
